theory Spec2Isabelle
  imports Main "HOL-Library.Word"
begin

unbundle bit_operations_syntax

section \<open>Machine model\<close>

text \<open>
  Shallow embedding of \<^verbatim>\<open>libntfs-3g/decompress_common.h\<close>: the input bitstream, the
  Huffman symbol reader and the LZ77 match copier.

  Bytes live in a memory \<open>nat \<Rightarrow> u8\<close> indexed by address. Pointers are addresses
  (\<open>nat\<close>); a pointer difference is computed in \<open>int\<close>. \<^verbatim>\<open>unsigned\<close> and \<^verbatim>\<open>u32\<close>
  are \<open>32 word\<close>, so that \<open>+\<close> and \<open>-\<close> wrap around as in C.

  Every behaviour that C leaves undefined, or that a claim forbids, is a branch of the
  model returning a \<open>fault\<close>: a load from an address not below the stream's \<^verbatim>\<open>end\<close>,
  a shift by 32 or more, an index outside the decode table, a load or store outside
  the output buffer.
\<close>

type_synonym u8 = "8 word"
type_synonym u16 = "16 word"
type_synonym u32 = "32 word"
type_synonym memory = "nat \<Rightarrow> u8"

datatype fault =
    ReadPastEnd
  | ShiftCountOutOfRange
  | TableIndexOutOfRange
  | ReadBeforeBuffer
  | ReadPastBufend
  | WritePastBufend

text \<open>\<^verbatim>\<open>sizeof(size_t)\<close>, the \<^verbatim>\<open>WORDSIZE\<close> of the source: 4 or 8 bytes.\<close>

datatype wordsize = W4 | W8

fun WORDSIZE :: "wordsize \<Rightarrow> nat" where
  "WORDSIZE W4 = 4"
| "WORDSIZE W8 = 8"

text \<open>A byte list laid out from address 0, as a memory.\<close>

definition bytes_at :: "u8 list \<Rightarrow> memory" where
  "bytes_at bs = (\<lambda>p. if p < length bs then bs ! p else 0)"

text \<open>\<^verbatim>\<open>x << n\<close> and \<^verbatim>\<open>x >> n\<close> on \<^verbatim>\<open>u32\<close>: undefined in C when \<open>n \<ge> 32\<close>.\<close>

definition shl32 :: "u32 \<Rightarrow> u32 \<Rightarrow> fault + u32" where
  "shl32 x n = (if n < 32 then Inr (push_bit (unat n) x) else Inl ShiftCountOutOfRange)"

definition shr32 :: "u32 \<Rightarrow> u32 \<Rightarrow> fault + u32" where
  "shr32 x n = (if n < 32 then Inr (drop_bit (unat n) x) else Inl ShiftCountOutOfRange)"

section \<open>The input bitstream\<close>

text \<open>\<^verbatim>\<open>struct input_bitstream\<close>; the fields \<^verbatim>\<open>next\<close> and \<^verbatim>\<open>end\<close> are \<open>nextp\<close> and \<open>endp\<close>.\<close>

record input_bitstream =
  bitbuf :: u32
  bitsleft :: u32
  nextp :: nat
  endp :: nat

text \<open>A load of one input byte through a pointer of the stream \<open>is\<close>.\<close>

definition load_u8 :: "memory \<Rightarrow> input_bitstream \<Rightarrow> nat \<Rightarrow> fault + u8" where
  "load_u8 mem is p = (if p < endp is then Inr (mem p) else Inl ReadPastEnd)"

definition get_unaligned_le16 :: "memory \<Rightarrow> input_bitstream \<Rightarrow> nat \<Rightarrow> fault + u16" where
  "get_unaligned_le16 mem is p =
     (case load_u8 mem is p of Inl f \<Rightarrow> Inl f | Inr b0 \<Rightarrow>
      case load_u8 mem is (p + 1) of Inl f \<Rightarrow> Inl f | Inr b1 \<Rightarrow>
        Inr (ucast b0 OR push_bit 8 (ucast b1)))"

definition get_unaligned_le32 :: "memory \<Rightarrow> input_bitstream \<Rightarrow> nat \<Rightarrow> fault + u32" where
  "get_unaligned_le32 mem is p =
     (case load_u8 mem is p of Inl f \<Rightarrow> Inl f | Inr b0 \<Rightarrow>
      case load_u8 mem is (p + 1) of Inl f \<Rightarrow> Inl f | Inr b1 \<Rightarrow>
      case load_u8 mem is (p + 2) of Inl f \<Rightarrow> Inl f | Inr b2 \<Rightarrow>
      case load_u8 mem is (p + 3) of Inl f \<Rightarrow> Inl f | Inr b3 \<Rightarrow>
        Inr (ucast b0 OR (push_bit 8 (ucast b1) OR (push_bit 16 (ucast b2)
               OR push_bit 24 (ucast b3)))))"

definition init_input_bitstream :: "nat \<Rightarrow> u32 \<Rightarrow> input_bitstream" where
  "init_input_bitstream buffer sz =
     \<lparr>bitbuf = 0, bitsleft = 0, nextp = buffer, endp = buffer + unat sz\<rparr>"

definition bitstream_ensure_bits ::
  "memory \<Rightarrow> input_bitstream \<Rightarrow> u32 \<Rightarrow> fault + input_bitstream" where
  "bitstream_ensure_bits mem is num_bits =
     (if bitsleft is < num_bits then
        (if int (endp is) - int (nextp is) \<ge> 2 then
           (case get_unaligned_le16 mem is (nextp is) of Inl f \<Rightarrow> Inl f | Inr u \<Rightarrow>
            case shl32 (ucast u) (16 - bitsleft is) of Inl f \<Rightarrow> Inl f | Inr x \<Rightarrow>
              Inr (is\<lparr>bitbuf := bitbuf is OR x, bitsleft := bitsleft is + 16,
                      nextp := nextp is + 2\<rparr>))
         else Inr (is\<lparr>bitsleft := bitsleft is + 16\<rparr>))
      else Inr is)"

definition bitstream_peek_bits :: "input_bitstream \<Rightarrow> u32 \<Rightarrow> fault + u32" where
  "bitstream_peek_bits is num_bits =
     (if num_bits = 0 then Inr 0 else shr32 (bitbuf is) (32 - num_bits))"

definition bitstream_remove_bits :: "input_bitstream \<Rightarrow> u32 \<Rightarrow> fault + input_bitstream" where
  "bitstream_remove_bits is num_bits =
     (case shl32 (bitbuf is) num_bits of Inl f \<Rightarrow> Inl f | Inr x \<Rightarrow>
        Inr (is\<lparr>bitbuf := x, bitsleft := bitsleft is - num_bits\<rparr>))"

definition bitstream_pop_bits ::
  "input_bitstream \<Rightarrow> u32 \<Rightarrow> fault + (u32 \<times> input_bitstream)" where
  "bitstream_pop_bits is num_bits =
     (case bitstream_peek_bits is num_bits of Inl f \<Rightarrow> Inl f | Inr bits \<Rightarrow>
      case bitstream_remove_bits is num_bits of Inl f \<Rightarrow> Inl f | Inr is' \<Rightarrow>
        Inr (bits, is'))"

definition bitstream_read_bits ::
  "memory \<Rightarrow> input_bitstream \<Rightarrow> u32 \<Rightarrow> fault + (u32 \<times> input_bitstream)" where
  "bitstream_read_bits mem is num_bits =
     (case bitstream_ensure_bits mem is num_bits of Inl f \<Rightarrow> Inl f | Inr is' \<Rightarrow>
        bitstream_pop_bits is' num_bits)"

definition bitstream_read_byte ::
  "memory \<Rightarrow> input_bitstream \<Rightarrow> fault + (u8 \<times> input_bitstream)" where
  "bitstream_read_byte mem is =
     (if endp is = nextp is then Inr (0, is)
      else case load_u8 mem is (nextp is) of Inl f \<Rightarrow> Inl f | Inr b \<Rightarrow>
        Inr (b, is\<lparr>nextp := nextp is + 1\<rparr>))"

definition bitstream_read_u16 ::
  "memory \<Rightarrow> input_bitstream \<Rightarrow> fault + (u16 \<times> input_bitstream)" where
  "bitstream_read_u16 mem is =
     (if int (endp is) - int (nextp is) < 2 then Inr (0, is)
      else case get_unaligned_le16 mem is (nextp is) of Inl f \<Rightarrow> Inl f | Inr v \<Rightarrow>
        Inr (v, is\<lparr>nextp := nextp is + 2\<rparr>))"

definition bitstream_read_u32 ::
  "memory \<Rightarrow> input_bitstream \<Rightarrow> fault + (u32 \<times> input_bitstream)" where
  "bitstream_read_u32 mem is =
     (if int (endp is) - int (nextp is) < 4 then Inr (0, is)
      else case get_unaligned_le32 mem is (nextp is) of Inl f \<Rightarrow> Inl f | Inr v \<Rightarrow>
        Inr (v, is\<lparr>nextp := nextp is + 4\<rparr>))"

text \<open>
  \<^verbatim>\<open>memcpy(dst_buffer, is->next, count)\<close>: the bytes are loaded one by one, in order,
  and returned as the list that lands in \<^verbatim>\<open>dst_buffer\<close>.
\<close>

fun load_bytes :: "memory \<Rightarrow> input_bitstream \<Rightarrow> nat \<Rightarrow> nat \<Rightarrow> fault + u8 list" where
  "load_bytes mem is p 0 = Inr []"
| "load_bytes mem is p (Suc n) =
     (case load_u8 mem is p of Inl f \<Rightarrow> Inl f | Inr b \<Rightarrow>
      case load_bytes mem is (Suc p) n of Inl f \<Rightarrow> Inl f | Inr bs \<Rightarrow> Inr (b # bs))"

text \<open>
  \<^verbatim>\<open>(size_t)(is->end - is->next)\<close>: the pointer difference reduced modulo
  \<open>2 ^ (8 * sizeof(size_t))\<close>.
\<close>

definition size_t_of_ptrdiff :: "wordsize \<Rightarrow> int \<Rightarrow> nat" where
  "size_t_of_ptrdiff ws d = nat (d mod 2 ^ (8 * WORDSIZE ws))"

text \<open>
  \<^verbatim>\<open>bitstream_read_bytes\<close>: \<open>None\<close> is the \<^verbatim>\<open>NULL\<close> return, \<open>Some bs\<close> the bytes
  copied to \<^verbatim>\<open>dst_buffer\<close> (the returned pointer is \<^verbatim>\<open>dst_buffer + count\<close>).
\<close>

definition bitstream_read_bytes ::
  "wordsize \<Rightarrow> memory \<Rightarrow> input_bitstream \<Rightarrow> nat \<Rightarrow> fault + (u8 list option \<times> input_bitstream)" where
  "bitstream_read_bytes ws mem is count =
     (if size_t_of_ptrdiff ws (int (endp is) - int (nextp is)) < count then Inr (None, is)
      else case load_bytes mem is (nextp is) count of Inl f \<Rightarrow> Inl f | Inr bs \<Rightarrow>
        Inr (Some bs, is\<lparr>nextp := nextp is + count\<rparr>))"

definition bitstream_align :: "input_bitstream \<Rightarrow> input_bitstream" where
  "bitstream_align is = is\<lparr>bitsleft := 0, bitbuf := 0\<rparr>"

section \<open>The Huffman symbol reader\<close>

text \<open>
  The tree walk of \<^verbatim>\<open>read_huffsym\<close>:
  \<^verbatim>\<open>do { key_bits = (entry & 0x3FFF) + bitstream_pop_bits(istream, 1); }
  while ((entry = decode_table[key_bits]) >= 0xC000);\<close>
  It is entered with the tree entry just read and may run forever on a table whose
  tree has a cycle, so it is a partial function: \<open>None\<close> is not returning.
\<close>

partial_function (option) read_huffsym_loop ::
  "u16 list \<Rightarrow> input_bitstream \<Rightarrow> u32 \<Rightarrow> (fault + (u32 \<times> input_bitstream)) option" where
  "read_huffsym_loop decode_table is entry =
     (case bitstream_pop_bits is 1 of Inl f \<Rightarrow> Some (Inl f) | Inr (b, is') \<Rightarrow>
        (let key_bits = (entry AND 0x3FFF) + b in
         if unat key_bits < length decode_table then
           (let entry' = ucast (decode_table ! unat key_bits) in
            if entry' \<ge> 0xC000 then read_huffsym_loop decode_table is' entry'
            else Some (Inr (entry', is')))
         else Some (Inl TableIndexOutOfRange)))"

text \<open>\<^verbatim>\<open>read_huffsym\<close>; the decode table is the list of its \<^verbatim>\<open>u16\<close> entries.\<close>

definition read_huffsym ::
  "memory \<Rightarrow> input_bitstream \<Rightarrow> u16 list \<Rightarrow> u32 \<Rightarrow> u32 \<Rightarrow>
     (fault + (u32 \<times> input_bitstream)) option" where
  "read_huffsym mem istream decode_table table_bits max_codeword_len =
     (case bitstream_ensure_bits mem istream max_codeword_len of Inl f \<Rightarrow> Some (Inl f)
      | Inr is1 \<Rightarrow>
      case bitstream_peek_bits is1 table_bits of Inl f \<Rightarrow> Some (Inl f) | Inr key_bits \<Rightarrow>
      if unat key_bits < length decode_table then
        (let entry = ucast (decode_table ! unat key_bits) :: u32 in
         if entry < 0xC000 then
           (case bitstream_remove_bits is1 (drop_bit 11 entry) of Inl f \<Rightarrow> Some (Inl f)
            | Inr is2 \<Rightarrow> Some (Inr (entry AND 0x7FF, is2)))
         else
           (case bitstream_remove_bits is1 table_bits of Inl f \<Rightarrow> Some (Inl f)
            | Inr is2 \<Rightarrow> read_huffsym_loop decode_table is2 entry))
      else Some (Inl TableIndexOutOfRange))"

text \<open>
  The decode tables the reader is meant for. An entry below \<open>0xC000\<close> is a fast
  record (low 11 bits the symbol, high 5 bits the codeword length); an entry from
  \<open>0xC000\<close> on is a tree node whose low 14 bits index the first of its two child
  slots. \<open>tree_ok tbl d e\<close>: every path from the entry \<open>e\<close> reaches a leaf within
  \<open>d\<close> steps through slots inside the table.
\<close>

fun tree_ok :: "u16 list \<Rightarrow> nat \<Rightarrow> u32 \<Rightarrow> bool" where
  "tree_ok tbl 0 entry = (entry < 0xC000)"
| "tree_ok tbl (Suc d) entry =
     (entry < 0xC000 \<or>
      list_all (\<lambda>b. unat ((entry AND 0x3FFF) + b) < length tbl \<and>
                     tree_ok tbl d (ucast (tbl ! unat ((entry AND 0x3FFF) + b)))) [0, 1])"

text \<open>
  A table for codewords of at most \<open>max_codeword_len\<close> bits: the \<open>2 ^ table_bits\<close>
  directly indexed entries exist; a fast record there has a length of at most
  \<open>max_codeword_len\<close>, a tree rooted there ends within the remaining
  \<open>max_codeword_len - table_bits\<close> bits.
\<close>

definition valid_decode_table :: "u16 list \<Rightarrow> u32 \<Rightarrow> u32 \<Rightarrow> bool" where
  "valid_decode_table tbl table_bits max_codeword_len =
     (2 ^ unat table_bits \<le> length tbl \<and>
      list_all (\<lambda>e. if (ucast e :: u32) < 0xC000
                     then drop_bit 11 (ucast e :: u32) \<le> max_codeword_len
                     else tree_ok tbl (unat max_codeword_len - unat table_bits) (ucast e))
        (take (2 ^ unat table_bits) tbl))"

section \<open>Sequences of stream operations\<close>

text \<open>
  The operations of the bitstream as data, so that a property can be stated for every
  operation and for every sequence of calls made on one stream.
\<close>

datatype stream_op =
    Ensure u32 | Peek u32 | Remove u32 | Pop u32 | ReadBits u32
  | ReadByte | ReadU16 | ReadU32 | ReadBytes nat | Align

datatype op_value = NoValue | Bits u32 | Byte u8 | U16 u16 | Bytes "u8 list option"

fun run_op ::
  "wordsize \<Rightarrow> memory \<Rightarrow> input_bitstream \<Rightarrow> stream_op \<Rightarrow> fault + (op_value \<times> input_bitstream)" where
  "run_op ws mem is (Ensure n) =
     (case bitstream_ensure_bits mem is n of Inl f \<Rightarrow> Inl f | Inr is' \<Rightarrow> Inr (NoValue, is'))"
| "run_op ws mem is (Peek n) =
     (case bitstream_peek_bits is n of Inl f \<Rightarrow> Inl f | Inr v \<Rightarrow> Inr (Bits v, is))"
| "run_op ws mem is (Remove n) =
     (case bitstream_remove_bits is n of Inl f \<Rightarrow> Inl f | Inr is' \<Rightarrow> Inr (NoValue, is'))"
| "run_op ws mem is (Pop n) =
     (case bitstream_pop_bits is n of Inl f \<Rightarrow> Inl f | Inr (v, is') \<Rightarrow> Inr (Bits v, is'))"
| "run_op ws mem is (ReadBits n) =
     (case bitstream_read_bits mem is n of Inl f \<Rightarrow> Inl f | Inr (v, is') \<Rightarrow> Inr (Bits v, is'))"
| "run_op ws mem is ReadByte =
     (case bitstream_read_byte mem is of Inl f \<Rightarrow> Inl f | Inr (v, is') \<Rightarrow> Inr (Byte v, is'))"
| "run_op ws mem is ReadU16 =
     (case bitstream_read_u16 mem is of Inl f \<Rightarrow> Inl f | Inr (v, is') \<Rightarrow> Inr (U16 v, is'))"
| "run_op ws mem is ReadU32 =
     (case bitstream_read_u32 mem is of Inl f \<Rightarrow> Inl f | Inr (v, is') \<Rightarrow> Inr (Bits v, is'))"
| "run_op ws mem is (ReadBytes count) =
     (case bitstream_read_bytes ws mem is count of Inl f \<Rightarrow> Inl f
      | Inr (v, is') \<Rightarrow> Inr (Bytes v, is'))"
| "run_op ws mem is Align = Inr (NoValue, bitstream_align is)"

fun run_ops ::
  "wordsize \<Rightarrow> memory \<Rightarrow> input_bitstream \<Rightarrow> stream_op list \<Rightarrow>
     fault + (op_value list \<times> input_bitstream)" where
  "run_ops ws mem is [] = Inr ([], is)"
| "run_ops ws mem is (op # ops) =
     (case run_op ws mem is op of Inl f \<Rightarrow> Inl f | Inr (v, is') \<Rightarrow>
      case run_ops ws mem is' ops of Inl f \<Rightarrow> Inl f | Inr (vs, is'') \<Rightarrow> Inr (v # vs, is''))"

text \<open>The operations that work on the bit buffer; the others read bytes at the cursor.\<close>

fun bit_granular :: "stream_op \<Rightarrow> bool" where
  "bit_granular (Ensure n) = True"
| "bit_granular (Peek n) = True"
| "bit_granular (Remove n) = True"
| "bit_granular (Pop n) = True"
| "bit_granular (ReadBits n) = True"
| "bit_granular Align = True"
| "bit_granular ReadByte = False"
| "bit_granular ReadU16 = False"
| "bit_granular ReadU32 = False"
| "bit_granular (ReadBytes count) = False"

section \<open>The match copier\<close>

text \<open>
  The build of \<^verbatim>\<open>lz_copy\<close>: whether \<^verbatim>\<open>FAST_UNALIGNED_ACCESS\<close> is defined, the size
  of \<^verbatim>\<open>size_t\<close> and the byte order of the machine.
\<close>

record build =
  fast_unaligned_access :: bool
  word_size :: wordsize
  big_endian :: bool

text \<open>
  A \<^verbatim>\<open>size_t\<close> value is kept in a 64-bit word; on a build with 4-byte words every
  result of a shift is cut to 32 bits (\<open>size_t_trunc\<close>).
\<close>

type_synonym size_t = "64 word"

text \<open>
  The output buffer starts at address 0; \<open>bufend\<close> is the address just past it. A load
  below the buffer or from \<open>bufend\<close> on, and a store at \<open>bufend\<close> or beyond, is a
  fault.
\<close>

definition out_load :: "memory \<Rightarrow> nat \<Rightarrow> int \<Rightarrow> fault + u8" where
  "out_load mem bufend p =
     (if p < 0 then Inl ReadBeforeBuffer
      else if int bufend \<le> p then Inl ReadPastBufend
      else Inr (mem (nat p)))"

definition out_store :: "memory \<Rightarrow> nat \<Rightarrow> nat \<Rightarrow> u8 \<Rightarrow> fault + memory" where
  "out_store mem bufend p v =
     (if bufend \<le> p then Inl WritePastBufend else Inr (mem(p := v)))"

fun out_load_bytes :: "memory \<Rightarrow> nat \<Rightarrow> int \<Rightarrow> nat \<Rightarrow> fault + u8 list" where
  "out_load_bytes mem bufend p 0 = Inr []"
| "out_load_bytes mem bufend p (Suc n) =
     (case out_load mem bufend p of Inl f \<Rightarrow> Inl f | Inr v \<Rightarrow>
      case out_load_bytes mem bufend (p + 1) n of Inl f \<Rightarrow> Inl f | Inr vs \<Rightarrow> Inr (v # vs))"

fun out_store_bytes :: "memory \<Rightarrow> nat \<Rightarrow> nat \<Rightarrow> u8 list \<Rightarrow> fault + memory" where
  "out_store_bytes mem bufend p [] = Inr mem"
| "out_store_bytes mem bufend p (v # vs) =
     (case out_store mem bufend p v of Inl f \<Rightarrow> Inl f | Inr mem' \<Rightarrow>
        out_store_bytes mem' bufend (Suc p) vs)"

text \<open>
  \<^verbatim>\<open>get_unaligned_word\<close> and \<^verbatim>\<open>put_unaligned_word\<close>: a word is read from, and
  written to, \<^verbatim>\<open>WORDSIZE\<close> consecutive bytes in the byte order of the machine.
\<close>

fun le_word :: "u8 list \<Rightarrow> size_t" where
  "le_word [] = 0"
| "le_word (v # vs) = ucast v OR push_bit 8 (le_word vs)"

definition word_of_bytes :: "build \<Rightarrow> u8 list \<Rightarrow> size_t" where
  "word_of_bytes b vs = le_word (if big_endian b then rev vs else vs)"

definition bytes_of_word :: "build \<Rightarrow> size_t \<Rightarrow> u8 list" where
  "bytes_of_word b v =
     (let vs = map (\<lambda>i. ucast (drop_bit (8 * i) v)) [0..<WORDSIZE (word_size b)]
      in if big_endian b then rev vs else vs)"

definition get_unaligned_word :: "build \<Rightarrow> memory \<Rightarrow> nat \<Rightarrow> int \<Rightarrow> fault + size_t" where
  "get_unaligned_word b mem bufend p =
     (case out_load_bytes mem bufend p (WORDSIZE (word_size b)) of Inl f \<Rightarrow> Inl f
      | Inr vs \<Rightarrow> Inr (word_of_bytes b vs))"

definition put_unaligned_word :: "build \<Rightarrow> memory \<Rightarrow> nat \<Rightarrow> size_t \<Rightarrow> nat \<Rightarrow> fault + memory" where
  "put_unaligned_word b mem bufend v p = out_store_bytes mem bufend p (bytes_of_word b v)"

definition copy_unaligned_word :: "build \<Rightarrow> memory \<Rightarrow> nat \<Rightarrow> int \<Rightarrow> nat \<Rightarrow> fault + memory" where
  "copy_unaligned_word b mem bufend src dst =
     (case get_unaligned_word b mem bufend src of Inl f \<Rightarrow> Inl f
      | Inr v \<Rightarrow> put_unaligned_word b mem bufend v dst)"

definition size_t_trunc :: "build \<Rightarrow> size_t \<Rightarrow> size_t" where
  "size_t_trunc b v = take_bit (8 * WORDSIZE (word_size b)) v"

definition repeat_byte :: "build \<Rightarrow> u8 \<Rightarrow> size_t" where
  "repeat_byte b x =
     (let v = ucast x;
          v = v OR size_t_trunc b (push_bit 8 v);
          v = v OR size_t_trunc b (push_bit 16 v);
          v = v OR size_t_trunc b (push_bit (if WORDSIZE (word_size b) = 8 then 32 else 0) v)
      in v)"

text \<open>
  The loop \<^verbatim>\<open>do { copy_unaligned_word(src, dst); src += WORDSIZE; dst += WORDSIZE; }
  while (dst < end);\<close> of the non-overlapping case.
\<close>

function lz_copy_words ::
  "build \<Rightarrow> memory \<Rightarrow> nat \<Rightarrow> int \<Rightarrow> nat \<Rightarrow> nat \<Rightarrow> fault + memory" where
  "lz_copy_words b mem bufend src dst end' =
     (case copy_unaligned_word b mem bufend src dst of Inl f \<Rightarrow> Inl f | Inr mem' \<Rightarrow>
        if dst + WORDSIZE (word_size b) < end'
        then lz_copy_words b mem' bufend (src + int (WORDSIZE (word_size b)))
               (dst + WORDSIZE (word_size b)) end'
        else Inr mem')"
  by pat_completeness auto
termination
proof (relation "measure (\<lambda>(b, mem, bufend, src, dst, e). e - dst)", goal_cases)
  case 1
  show ?case by simp
next
  case (2 b mem bufend src dst e mem')
  then show ?case by (cases "word_size b") simp_all
qed

text \<open>
  The loop \<^verbatim>\<open>do { put_unaligned_word(v, dst); src += WORDSIZE; dst += WORDSIZE; }
  while (dst < end);\<close> of the case \<^verbatim>\<open>offset == 1\<close> (\<^verbatim>\<open>src\<close> is not used again).
\<close>

function lz_fill_words ::
  "build \<Rightarrow> memory \<Rightarrow> nat \<Rightarrow> size_t \<Rightarrow> nat \<Rightarrow> nat \<Rightarrow> fault + memory" where
  "lz_fill_words b mem bufend v dst end' =
     (case put_unaligned_word b mem bufend v dst of Inl f \<Rightarrow> Inl f | Inr mem' \<Rightarrow>
        if dst + WORDSIZE (word_size b) < end'
        then lz_fill_words b mem' bufend v (dst + WORDSIZE (word_size b)) end'
        else Inr mem')"
  by pat_completeness auto
termination
proof (relation "measure (\<lambda>(b, mem, bufend, v, dst, e). e - dst)", goal_cases)
  case 1
  show ?case by simp
next
  case (2 b mem bufend v dst e mem')
  then show ?case by (cases "word_size b") simp_all
qed

text \<open>\<^verbatim>\<open>*dst++ = *src++\<close>, and the loop \<^verbatim>\<open>do { *dst++ = *src++; } while (--length);\<close>
  on the \<^verbatim>\<open>u32\<close> counter \<^verbatim>\<open>length\<close>.\<close>

definition copy_byte :: "memory \<Rightarrow> nat \<Rightarrow> int \<Rightarrow> nat \<Rightarrow> fault + memory" where
  "copy_byte mem bufend src dst =
     (case out_load mem bufend src of Inl f \<Rightarrow> Inl f | Inr v \<Rightarrow> out_store mem bufend dst v)"

function lz_copy_bytes ::
  "memory \<Rightarrow> nat \<Rightarrow> int \<Rightarrow> nat \<Rightarrow> u32 \<Rightarrow> fault + (memory \<times> nat)" where
  "lz_copy_bytes mem bufend src dst length' =
     (case copy_byte mem bufend src dst of Inl f \<Rightarrow> Inl f | Inr mem' \<Rightarrow>
        if length' - 1 \<noteq> 0 then lz_copy_bytes mem' bufend (src + 1) (dst + 1) (length' - 1)
        else Inr (mem', dst + 1))"
  by pat_completeness auto
termination
proof (relation "measure (\<lambda>(mem, bufend, src, dst, len). unat (len - 1))", goal_cases)
  case 1
  show ?case by simp
next
  case (2 mem bufend src dst len mem')
  then have nz: "len - 1 \<noteq> 0" by simp
  have "unat (len - 1 - 1) = unat (len - 1) - 1" by (rule unat_minus_one [OF nz])
  moreover have "0 < unat (len - 1)" using nz by (simp add: unat_gt_0)
  ultimately have "unat (len - 1 - 1) < unat (len - 1)" by arith
  then show ?case by simp
qed

text \<open>
  The bytewise fallback of \<^verbatim>\<open>lz_copy\<close>, from \<^verbatim>\<open>if (min_length >= 2)\<close> to
  \<^verbatim>\<open>return dst\<close>.
\<close>

definition lz_copy_bytewise ::
  "memory \<Rightarrow> nat \<Rightarrow> u32 \<Rightarrow> u32 \<Rightarrow> nat \<Rightarrow> u32 \<Rightarrow> fault + (memory \<times> nat)" where
  "lz_copy_bytewise mem dst length' offset bufend min_length =
     (let src = int dst - int (unat offset) in
      case (if min_length \<ge> 2
            then (case copy_byte mem bufend src dst of Inl f \<Rightarrow> Inl f
                  | Inr mem' \<Rightarrow> Inr (mem', src + 1, dst + 1, length' - 1))
            else Inr (mem, src, dst, length')) of Inl f \<Rightarrow> Inl f
      | Inr (mem1, src1, dst1, length1) \<Rightarrow>
      case (if min_length \<ge> 3
            then (case copy_byte mem1 bufend src1 dst1 of Inl f \<Rightarrow> Inl f
                  | Inr mem' \<Rightarrow> Inr (mem', src1 + 1, dst1 + 1, length1 - 1))
            else Inr (mem1, src1, dst1, length1)) of Inl f \<Rightarrow> Inl f
      | Inr (mem2, src2, dst2, length2) \<Rightarrow>
        lz_copy_bytes mem2 bufend src2 dst2 length2)"

text \<open>
  \<^verbatim>\<open>lz_copy\<close>. The result is the output memory and the returned pointer. The first
  iteration of the word loop is unrolled, as in the source.
\<close>

definition lz_copy ::
  "build \<Rightarrow> memory \<Rightarrow> nat \<Rightarrow> u32 \<Rightarrow> u32 \<Rightarrow> nat \<Rightarrow> u32 \<Rightarrow> fault + (memory \<times> nat)" where
  "lz_copy b mem dst length' offset bufend min_length =
     (let src = int dst - int (unat offset);
          end' = dst + unat length';
          ws = WORDSIZE (word_size b) in
      if fast_unaligned_access b \<and> int bufend - int end' \<ge> int ws - 1 then
        (if unat offset \<ge> ws then
           (case copy_unaligned_word b mem bufend src dst of Inl f \<Rightarrow> Inl f | Inr mem' \<Rightarrow>
              if dst + ws < end' then
                (case lz_copy_words b mem' bufend (src + int ws) (dst + ws) end' of
                   Inl f \<Rightarrow> Inl f | Inr mem'' \<Rightarrow> Inr (mem'', end'))
              else Inr (mem', end'))
         else if offset = 1 then
           (case out_load mem bufend (int dst - 1) of Inl f \<Rightarrow> Inl f | Inr x \<Rightarrow>
            case lz_fill_words b mem bufend (repeat_byte b x) dst end' of
              Inl f \<Rightarrow> Inl f | Inr mem' \<Rightarrow> Inr (mem', end'))
         else lz_copy_bytewise mem dst length' offset bufend min_length)
      else lz_copy_bytewise mem dst length' offset bufend min_length)"

text \<open>
  The reference copy of the specification: \<open>n\<close> bytes, one at a time from left to
  right, each read from \<open>offset\<close> bytes before the position it is written to.
\<close>

fun ref_copy :: "memory \<Rightarrow> nat \<Rightarrow> nat \<Rightarrow> nat \<Rightarrow> memory" where
  "ref_copy mem dst offset 0 = mem"
| "ref_copy mem dst offset (Suc n) =
     ref_copy (mem(dst := mem (dst - offset))) (Suc dst) offset n"

text \<open>A word whose \<open>k\<close> low bytes all equal \<open>x\<close> and whose other bits are clear.\<close>

definition byte_repeated :: "u8 \<Rightarrow> nat \<Rightarrow> size_t \<Rightarrow> bool" where
  "byte_repeated x k v = (\<forall>j. bit v j \<longleftrightarrow> j < 8 * k \<and> bit x (j mod 8))"

declare lz_copy_words.simps [simp del] lz_fill_words.simps [simp del] lz_copy_bytes.simps [simp del]

section \<open>The reference bit-writer\<close>

text \<open>The low \<open>n\<close> bits of a word, most significant first.\<close>

definition bits_msb :: "nat \<Rightarrow> 'a::len word \<Rightarrow> bool list" where
  "bits_msb n w = map (\<lambda>i. bit w (n - 1 - i)) [0..<n]"

text \<open>
  The reference bit-writer of the round-trip property (the source has no encoder): the
  chunks, each a value \<open>v\<close> written as \<open>n\<close> bits from high to low, are concatenated;
  the bit sequence is padded with zero bits to a whole number of 16-bit coding units;
  each unit takes 16 bits, the first as its bit 15, and is stored little-endian.
\<close>

definition pad16 :: "bool list \<Rightarrow> bool list" where
  "pad16 bs = bs @ replicate ((16 - length bs mod 16) mod 16) False"

definition unit_of_bits :: "bool list \<Rightarrow> u16" where
  "unit_of_bits bs = horner_sum of_bool 2 (rev bs)"

fun units_of_bits :: "bool list \<Rightarrow> u16 list" where
  "units_of_bits bs =
     (if bs = [] then [] else unit_of_bits (take 16 bs) # units_of_bits (drop 16 bs))"

definition le16_bytes :: "u16 \<Rightarrow> u8 list" where
  "le16_bytes u = [ucast u, ucast (drop_bit 8 u)]"

definition bit_writer :: "(nat \<times> u32) list \<Rightarrow> u8 list" where
  "bit_writer chunks =
     concat (map le16_bytes
       (units_of_bits (pad16 (concat (map (\<lambda>(n, v). bits_msb n v) chunks)))))"

text \<open>
  The bits a stream still has to deliver: the \<open>bitsleft\<close> top bits of the bit buffer
  (\<open>acc_bits\<close>), then the bits of the whole 16-bit units between the cursor and
  \<open>end\<close> (\<open>unit_bits\<close>). \<open>stream_ok\<close> is the invariant of the specification's data
  model: the cursor does not exceed \<open>end\<close>, and the bit buffer holds at most 32 bits,
  left-justified, with every bit below them clear.
\<close>

fun unit_bits :: "u8 list \<Rightarrow> bool list" where
  "unit_bits (lo # hi # rest) =
     bits_msb 16 (ucast lo OR push_bit 8 (ucast hi) :: u16) @ unit_bits rest"
| "unit_bits rest = []"

definition acc_bits :: "input_bitstream \<Rightarrow> bool list" where
  "acc_bits is = map (\<lambda>i. bit (bitbuf is) (31 - i)) [0..<unat (bitsleft is)]"

definition pending :: "memory \<Rightarrow> input_bitstream \<Rightarrow> bool list" where
  "pending mem is = acc_bits is @ unit_bits (map mem [nextp is..<endp is])"

definition stream_ok :: "input_bitstream \<Rightarrow> bool" where
  "stream_ok is =
     (nextp is \<le> endp is \<and> unat (bitsleft is) \<le> 32 \<and>
      take_bit (32 - unat (bitsleft is)) (bitbuf is) = 0)"

declare units_of_bits.simps [simp del]

section \<open>The 16-bit refill\<close>

lemma get_unaligned_le16_ok:
  "p + 1 < endp is \<Longrightarrow>
   get_unaligned_le16 mem is p = Inr (ucast (mem p) OR push_bit 8 (ucast (mem (p + 1))))"
  by (simp add: get_unaligned_le16_def load_u8_def)

lemma shl32_small: "n < 32 \<Longrightarrow> shl32 x n = Inr (push_bit (unat n) x)"
  by (simp add: shl32_def)

lemma refill_shift_in_range:
  fixes k n :: u32
  assumes "k < n" "n \<le> 16"
  shows "16 - k < 32" "unat (16 - k) = 16 - unat k" "n \<le> k + 16"
proof -
  from assms have n16: "unat n \<le> 16" by (simp add: word_le_nat_alt)
  from assms have kn: "unat k < unat n" by (simp add: word_less_nat_alt)
  have k16: "k \<le> 16" using kn n16 by (simp add: word_le_nat_alt)
  show u: "unat (16 - k) = 16 - unat k" using k16 by (simp add: unat_sub)
  show "16 - k < 32" using u by (simp add: word_less_nat_alt)
  have "unat (k + 16) = unat k + 16"
    using kn n16 by (simp add: unat_word_ariths)
  then show "n \<le> k + 16" using n16 by (simp add: word_le_nat_alt)
qed

lemma ensure_bits_cases:
  assumes "nextp is \<le> endp is" and "n \<le> 16"
  shows "\<exists>is'. bitstream_ensure_bits mem is n = Inr is' \<and> n \<le> bitsleft is' \<and>
           endp is' = endp is \<and>
           (if n \<le> bitsleft is then is' = is
            else if nextp is + 2 \<le> endp is then
              is' = is\<lparr>bitbuf := bitbuf is OR
                          push_bit (16 - unat (bitsleft is))
                            (ucast (ucast (mem (nextp is)) OR
                                    push_bit 8 (ucast (mem (nextp is + 1))) :: u16)),
                       bitsleft := bitsleft is + 16,
                       nextp := nextp is + 2\<rparr>
            else is' = is\<lparr>bitsleft := bitsleft is + 16\<rparr>)"
proof (cases "n \<le> bitsleft is")
  case True
  then have "\<not> bitsleft is < n" by (simp add: not_less)
  with True show ?thesis by (simp add: bitstream_ensure_bits_def)
next
  case False
  then have lt: "bitsleft is < n" by (simp add: not_le)
  note r = refill_shift_in_range [OF lt assms(2)]
  show ?thesis
  proof (cases "nextp is + 2 \<le> endp is")
    case True
    then have "get_unaligned_le16 mem is (nextp is) =
        Inr (ucast (mem (nextp is)) OR push_bit 8 (ucast (mem (nextp is + 1))))"
      by (intro get_unaligned_le16_ok) simp
    with True lt r show ?thesis
      by (simp add: bitstream_ensure_bits_def shl32_small)
  next
    case False
    with lt r show ?thesis
      by (simp add: bitstream_ensure_bits_def)
  qed
qed

lemma length_bits_msb [simp]: "length (bits_msb n w) = n"
  by (simp add: bits_msb_def)

lemma length_acc_bits [simp]: "length (acc_bits is) = unat (bitsleft is)"
  by (simp add: acc_bits_def)

lemma nth_bits_msb: "i < n \<Longrightarrow> bits_msb n w ! i = bit w (n - 1 - i)"
  by (simp add: bits_msb_def)

lemma unit_bits_nonempty: "unit_bits bs \<noteq> [] \<Longrightarrow> 2 \<le> length bs"
  by (cases bs rule: unit_bits.cases) auto

lemma low_bits_clear_iff:
  fixes w :: u32
  shows "take_bit (32 - K) w = 0 \<longleftrightarrow> (\<forall>j. j + K < 32 \<longrightarrow> \<not> bit w j)"
proof
  assume z: "take_bit (32 - K) w = 0"
  show "\<forall>j. j + K < 32 \<longrightarrow> \<not> bit w j"
  proof (intro allI impI notI)
    fix j
    assume "j + K < 32" "bit w j"
    then have "bit (take_bit (32 - K) w) j" by (simp add: bit_simps less_diff_conv)
    with z show False by simp
  qed
next
  assume a: "\<forall>j. j + K < 32 \<longrightarrow> \<not> bit w j"
  show "take_bit (32 - K) w = 0"
  proof (rule bit_eqI)
    fix j
    from a have "j < 32 - K \<Longrightarrow> \<not> bit w j" by (simp add: less_diff_conv)
    then show "bit (take_bit (32 - K) w) j = bit (0 :: u32) j"
      by (auto simp: bit_simps)
  qed
qed

lemma stream_ok_iff:
  "stream_ok is \<longleftrightarrow>
     nextp is \<le> endp is \<and> unat (bitsleft is) \<le> 32 \<and>
     (\<forall>j. j + unat (bitsleft is) < 32 \<longrightarrow> \<not> bit (bitbuf is) j)"
  by (simp only: stream_ok_def low_bits_clear_iff)

lemma refill_bits:
  fixes b :: u32 and u :: u16
  assumes K: "K \<le> 16" and inv: "\<And>j. j + K < 32 \<Longrightarrow> \<not> bit b j"
  shows "bit (b OR push_bit (16 - K) (ucast u)) j \<longleftrightarrow>
           (if j + K < 16 then False else if j + K < 32 then bit u (j + K - 16) else bit b j)"
proof -
  consider (low) "j + K < 16" | (mid) "16 \<le> j + K" "j + K < 32" | (high) "32 \<le> j + K" by linarith
  then show ?thesis
  proof cases
    case low
    then have "\<not> 16 - K \<le> j" by arith
    with low show ?thesis using inv [of j] by (simp add: bit_simps)
  next
    case mid
    then have "j - (16 - K) = j + K - 16" "16 - K \<le> j" "j + K - 16 < 32" using K by arith+
    with mid K show ?thesis using inv [of j] by (simp add: bit_simps)
  next
    case high
    then have "\<not> bit u (j - (16 - K))" using K by (auto dest!: bit_imp_le_length)
    with high show ?thesis by (auto simp: bit_simps)
  qed
qed

lemma acc_bits_refill:
  fixes u :: u16
  assumes ok: "stream_ok is" and K: "unat (bitsleft is) < 16" and p: "p \<le> endp is"
  shows "acc_bits (is\<lparr>bitbuf := bitbuf is OR push_bit (16 - unat (bitsleft is)) (ucast u),
                       bitsleft := bitsleft is + 16, nextp := p\<rparr>) =
           acc_bits is @ bits_msb 16 u"
    and "stream_ok (is\<lparr>bitbuf := bitbuf is OR push_bit (16 - unat (bitsleft is)) (ucast u),
                       bitsleft := bitsleft is + 16, nextp := p\<rparr>)"
proof -
  let ?K = "unat (bitsleft is)"
  let ?W = "bitbuf is OR push_bit (16 - ?K) (ucast u)"
  let ?is1 = "is\<lparr>bitbuf := ?W, bitsleft := bitsleft is + 16, nextp := p\<rparr>"
  have uk: "unat (bitsleft is + 16) = ?K + 16" using K by (simp add: unat_word_ariths)
  from ok have zero: "\<And>j. j + ?K < 32 \<Longrightarrow> \<not> bit (bitbuf is) j" by (simp add: stream_ok_iff)
  have K': "?K \<le> 16" using K by simp
  note rb = refill_bits [OF K' zero, of u]
  show "acc_bits ?is1 = acc_bits is @ bits_msb 16 u"
  proof (rule nth_equalityI)
    show "length (acc_bits ?is1) = length (acc_bits is @ bits_msb 16 u)"
      by (simp add: uk)
  next
    fix i
    assume "i < length (acc_bits ?is1)"
    then have i: "i < ?K + 16" by (simp add: uk)
    have l: "acc_bits ?is1 ! i = bit ?W (31 - i)"
      using i by (simp add: acc_bits_def uk)
    show "acc_bits ?is1 ! i = (acc_bits is @ bits_msb 16 u) ! i"
    proof (cases "i < ?K")
      case True
      then have "32 \<le> 31 - i + ?K" using K by arith
      then have "bit ?W (31 - i) = bit (bitbuf is) (31 - i)" by (simp only: rb) simp
      with True l show ?thesis by (simp add: nth_append acc_bits_def)
    next
      case False
      with i K have "16 \<le> 31 - i + ?K" "31 - i + ?K < 32" "31 - i + ?K - 16 = 15 - (i - ?K)"
        by arith+
      then have "bit ?W (31 - i) = bit u (15 - (i - ?K))" by (simp only: rb) simp
      moreover from False i have "i - ?K < 16" by arith
      then have "bits_msb 16 u ! (i - ?K) = bit u (16 - 1 - (i - ?K))" by (rule nth_bits_msb)
      ultimately show ?thesis using False l by (simp add: nth_append)
    qed
  qed
  show "stream_ok ?is1"
    unfolding stream_ok_iff
  proof (intro conjI allI impI)
    show "nextp ?is1 \<le> endp ?is1" using p by simp
    show "unat (bitsleft ?is1) \<le> 32" using K by (simp add: uk)
    fix j
    assume "j + unat (bitsleft ?is1) < 32"
    then have "j + ?K < 16" by (simp add: uk)
    then have "\<not> bit ?W j" by (simp only: rb) simp
    then show "\<not> bit (bitbuf ?is1) j" by simp
  qed
qed

lemma acc_bits_pad:
  assumes ok: "stream_ok is" and K: "unat (bitsleft is) < 16"
  shows "acc_bits (is\<lparr>bitsleft := bitsleft is + 16\<rparr>) = acc_bits is @ replicate 16 False"
proof -
  let ?K = "unat (bitsleft is)"
  have uk: "unat (bitsleft is + 16) = ?K + 16" using K by (simp add: unat_word_ariths)
  from ok have zero: "\<And>j. j + ?K < 32 \<Longrightarrow> \<not> bit (bitbuf is) j" by (simp add: stream_ok_iff)
  show ?thesis
  proof (rule nth_equalityI)
    show "length (acc_bits (is\<lparr>bitsleft := bitsleft is + 16\<rparr>)) =
        length (acc_bits is @ replicate 16 False)"
      by (simp add: uk)
  next
    fix i
    assume "i < length (acc_bits (is\<lparr>bitsleft := bitsleft is + 16\<rparr>))"
    then have i: "i < ?K + 16" by (simp add: uk)
    show "acc_bits (is\<lparr>bitsleft := bitsleft is + 16\<rparr>) ! i =
        (acc_bits is @ replicate 16 False) ! i"
    proof (cases "i < ?K")
      case True
      with i show ?thesis by (simp add: nth_append acc_bits_def uk)
    next
      case False
      with i K have "31 - i + ?K < 32" "i - ?K < 16" by arith+
      with zero [of "31 - i"] False i show ?thesis
        by (simp add: nth_append acc_bits_def uk)
    qed
  qed
qed

text \<open>
  C4. For every stream state with \<open>next \<le> end\<close> and every \<open>n \<le> 16\<close>,
  \<^verbatim>\<open>bitstream_ensure_bits(n)\<close> succeeds and leaves \<open>bitsleft \<ge> n\<close>. If \<open>n\<close> bits were
  buffered already, nothing changes. Otherwise, when at least two input bytes remain,
  the next little-endian 16-bit unit is or-ed in just below the \<open>bitsleft\<close> existing bits
  and the cursor moves by two, so that the buffered bits are the old ones followed by
  the 16 bits of the unit; when fewer than two bytes remain, the bit buffer and the
  cursor are kept and \<open>bitsleft\<close> grows by 16, so that the buffered bits are the old ones
  followed by 16 zero bits.
\<close>

theorem ensure_bits_refill:
  assumes "nextp is \<le> endp is" and "n \<le> 16"
  shows "\<exists>is'. bitstream_ensure_bits mem is n = Inr is' \<and> n \<le> bitsleft is' \<and>
           endp is' = endp is \<and>
           (if n \<le> bitsleft is then is' = is
            else if nextp is + 2 \<le> endp is then
              is' = is\<lparr>bitbuf := bitbuf is OR
                          push_bit (16 - unat (bitsleft is))
                            (ucast (ucast (mem (nextp is)) OR
                                    push_bit 8 (ucast (mem (nextp is + 1))) :: u16)),
                       bitsleft := bitsleft is + 16,
                       nextp := nextp is + 2\<rparr> \<and>
              (stream_ok is \<longrightarrow>
                 acc_bits is' = acc_bits is @
                   bits_msb 16 (ucast (mem (nextp is)) OR
                                push_bit 8 (ucast (mem (nextp is + 1))) :: u16))
            else is' = is\<lparr>bitsleft := bitsleft is + 16\<rparr> \<and>
              (stream_ok is \<longrightarrow> acc_bits is' = acc_bits is @ replicate 16 False))"
proof -
  from ensure_bits_cases [OF assms, of mem] obtain is' where
    e: "bitstream_ensure_bits mem is n = Inr is'" "n \<le> bitsleft is'" "endp is' = endp is"
    and c: "if n \<le> bitsleft is then is' = is
            else if nextp is + 2 \<le> endp is then
              is' = is\<lparr>bitbuf := bitbuf is OR
                          push_bit (16 - unat (bitsleft is))
                            (ucast (ucast (mem (nextp is)) OR
                                    push_bit 8 (ucast (mem (nextp is + 1))) :: u16)),
                       bitsleft := bitsleft is + 16,
                       nextp := nextp is + 2\<rparr>
            else is' = is\<lparr>bitsleft := bitsleft is + 16\<rparr>"
    by blast
  have K: "unat (bitsleft is) < 16" if "\<not> n \<le> bitsleft is"
  proof -
    from that have "unat (bitsleft is) < unat n" by (simp add: word_less_nat_alt not_le)
    moreover from assms(2) have "unat n \<le> 16" by (simp add: word_le_nat_alt)
    ultimately show ?thesis by simp
  qed
  show ?thesis
  proof (cases "n \<le> bitsleft is")
    case True
    with e c show ?thesis by simp
  next
    case False
    note K = K [OF False]
    show ?thesis
    proof (cases "nextp is + 2 \<le> endp is")
      case True
      have "acc_bits is' = acc_bits is @
          bits_msb 16 (ucast (mem (nextp is)) OR push_bit 8 (ucast (mem (nextp is + 1))) :: u16)"
        if "stream_ok is"
        using c False True acc_bits_refill(1) [OF that K True] by simp
      with e c False True show ?thesis by simp
    next
      case nospace: False
      have "acc_bits is' = acc_bits is @ replicate 16 False" if "stream_ok is"
        using c False nospace acc_bits_pad [OF that K] by simp
      with e c False nospace show ?thesis by simp
    qed
  qed
qed

theorem ensure_bits_refill_witness:
  "nextp (init_input_bitstream 0 2) \<le> endp (init_input_bitstream 0 2) \<and> (5 :: u32) \<le> 16 \<and>
   stream_ok (init_input_bitstream 0 2) \<and>
   (\<exists>is'. bitstream_ensure_bits (bytes_at [0x34, 0x12]) (init_input_bitstream 0 2) 5 = Inr is' \<and>
      is' = \<lparr>bitbuf = 0x12340000, bitsleft = 16, nextp = 2, endp = 2\<rparr> \<and>
      acc_bits is' = acc_bits (init_input_bitstream 0 2) @ bits_msb 16 (0x1234 :: u16)) \<and>
   nextp (init_input_bitstream 0 1) \<le> endp (init_input_bitstream 0 1) \<and>
   stream_ok (init_input_bitstream 0 1) \<and>
   (\<exists>is'. bitstream_ensure_bits (bytes_at [0x34]) (init_input_bitstream 0 1) 5 = Inr is' \<and>
      is' = \<lparr>bitbuf = 0, bitsleft = 16, nextp = 0, endp = 1\<rparr> \<and>
      acc_bits is' = acc_bits (init_input_bitstream 0 1) @ replicate 16 False)"
proof -
  have h: "nextp (init_input_bitstream 0 2) \<le> endp (init_input_bitstream 0 2)"
    by (simp add: init_input_bitstream_def)
  have n: "(5 :: u32) \<le> 16" by simp
  have ok: "stream_ok (init_input_bitstream 0 2)"
    by (simp add: stream_ok_def init_input_bitstream_def)
  have h1: "nextp (init_input_bitstream 0 1) \<le> endp (init_input_bitstream 0 1)"
    by (simp add: init_input_bitstream_def)
  have ok1: "stream_ok (init_input_bitstream 0 1)"
    by (simp add: stream_ok_def init_input_bitstream_def)
  have a: "\<exists>is'. bitstream_ensure_bits (bytes_at [0x34, 0x12]) (init_input_bitstream 0 2) 5 = Inr is' \<and>
      is' = \<lparr>bitbuf = 0x12340000, bitsleft = 16, nextp = 2, endp = 2\<rparr> \<and>
      acc_bits is' = acc_bits (init_input_bitstream 0 2) @ bits_msb 16 (0x1234 :: u16)"
    using ensure_bits_refill [OF h n, of "bytes_at [0x34, 0x12]"] ok
    by (simp add: init_input_bitstream_def bytes_at_def)
  have b: "\<exists>is'. bitstream_ensure_bits (bytes_at [0x34]) (init_input_bitstream 0 1) 5 = Inr is' \<and>
      is' = \<lparr>bitbuf = 0, bitsleft = 16, nextp = 0, endp = 1\<rparr> \<and>
      acc_bits is' = acc_bits (init_input_bitstream 0 1) @ replicate 16 False"
    using ensure_bits_refill [OF h1 n, of "bytes_at [0x34]"] ok1
    by (simp add: init_input_bitstream_def bytes_at_def)
  from h n ok a h1 ok1 b show ?thesis by blast
qed

section \<open>Reading a Huffman symbol\<close>

lemma pop_one_bit:
  "bitstream_pop_bits is 1 =
     Inr (drop_bit 31 (bitbuf is), is\<lparr>bitbuf := push_bit 1 (bitbuf is), bitsleft := bitsleft is - 1\<rparr>)"
  by (simp add: bitstream_pop_bits_def bitstream_peek_bits_def bitstream_remove_bits_def
      shl32_def shr32_def)

lemma top_bit_cases: "drop_bit 31 (w :: u32) = 0 \<or> drop_bit 31 w = 1"
proof -
  have "unat w < 2 ^ 32" using unsigned_less [of w] by simp
  then have "unat w div 2 ^ 31 < 2"
    by (simp add: less_mult_imp_div_less)
  moreover have "unat (drop_bit 31 w) = drop_bit 31 (unat w)"
    by (rule unat_drop_bit_eq)
  ultimately have "unat (drop_bit 31 w) < 2"
    by (simp only: drop_bit_eq_div)
  then have "unat (drop_bit 31 w) = 0 \<or> unat (drop_bit 31 w) = 1" by arith
  then show ?thesis by (auto simp: word_unat_eq_iff)
qed

lemma read_huffsym_loop_terminates:
  assumes "tree_ok tbl d entry" "0xC000 \<le> entry"
  shows "\<exists>sym is' c. read_huffsym_loop tbl is entry = Some (Inr (sym, is')) \<and>
           1 \<le> c \<and> c \<le> d \<and> bitsleft is' = bitsleft is - of_nat c \<and>
           bitbuf is' = push_bit c (bitbuf is) \<and>
           nextp is' = nextp is \<and> endp is' = endp is"
  using assms
proof (induction d arbitrary: "is" entry)
  case 0
  then show ?case by simp
next
  case (Suc d)
  let ?b = "drop_bit 31 (bitbuf is)"
  let ?is1 = "is\<lparr>bitbuf := push_bit 1 (bitbuf is), bitsleft := bitsleft is - 1\<rparr>"
  let ?k = "unat ((entry AND 0x3FFF) + ?b)"
  let ?e = "ucast (tbl ! ?k) :: u32"
  from Suc.prems have node: "\<not> entry < 0xC000" by (simp add: not_less)
  have b: "?b = 0 \<or> ?b = 1" by (rule top_bit_cases)
  with Suc.prems(1) node have k: "?k < length tbl" and sub: "tree_ok tbl d ?e"
    by auto
  show ?case
  proof (cases "0xC000 \<le> ?e")
    case True
    from Suc.IH [OF sub True, of ?is1] obtain sym is' c where
      r: "read_huffsym_loop tbl ?is1 ?e = Some (Inr (sym, is'))" and
      c: "1 \<le> c" "c \<le> d" "bitsleft is' = bitsleft ?is1 - of_nat c"
         "nextp is' = nextp ?is1" "endp is' = endp ?is1"
         and bb: "bitbuf is' = push_bit c (bitbuf ?is1)"
      by blast
    have "read_huffsym_loop tbl is entry = Some (Inr (sym, is'))"
      by (subst read_huffsym_loop.simps) (use r in \<open>simp add: pop_one_bit k True Let_def\<close>)
    moreover have "bitsleft is' = bitsleft is - of_nat (Suc c)" using c(3) by simp
    moreover have "bitbuf is' = push_bit (Suc c) (bitbuf is)" using bb by simp
    ultimately show ?thesis using c by (intro exI [of _ sym] exI [of _ is'] exI [of _ "Suc c"]) simp
  next
    case False
    have "read_huffsym_loop tbl is entry = Some (Inr (?e, ?is1))"
      by (subst read_huffsym_loop.simps) (simp add: pop_one_bit k False Let_def)
    then show ?thesis by (intro exI [of _ ?e] exI [of _ ?is1] exI [of _ 1]) simp
  qed
qed

lemma ensure_bits_ok:
  assumes "nextp is \<le> endp is" and "n \<le> 16"
  obtains is1 where "bitstream_ensure_bits mem is n = Inr is1" "n \<le> bitsleft is1"
    "endp is1 = endp is" "nextp is1 \<le> endp is1" "nextp is \<le> nextp is1"
proof -
  from ensure_bits_cases [OF assms, of mem] obtain is1 where
    e: "bitstream_ensure_bits mem is n = Inr is1" "n \<le> bitsleft is1" "endp is1 = endp is"
    and c: "if n \<le> bitsleft is then is1 = is
            else if nextp is + 2 \<le> endp is then
              is1 = is\<lparr>bitbuf := bitbuf is OR
                          push_bit (16 - unat (bitsleft is))
                            (ucast (ucast (mem (nextp is)) OR
                                    push_bit 8 (ucast (mem (nextp is + 1))) :: u16)),
                       bitsleft := bitsleft is + 16,
                       nextp := nextp is + 2\<rparr>
            else is1 = is\<lparr>bitsleft := bitsleft is + 16\<rparr>"
    by blast
  from c assms(1) have "nextp is1 \<le> endp is1 \<and> nextp is \<le> nextp is1"
    by (auto split: if_splits)
  with e that show ?thesis by blast
qed

lemma unat_drop_bit_u32_less:
  fixes w :: u32
  assumes "k \<le> 32"
  shows "unat (drop_bit k w) < 2 ^ (32 - k)"
proof -
  have "unat w < 2 ^ 32" using unsigned_less [of w] by simp
  also have "(2::nat) ^ 32 = 2 ^ (32 - k) * 2 ^ k"
    using assms by (simp flip: power_add)
  finally have "unat w div 2 ^ k < 2 ^ (32 - k)"
    by (simp add: less_mult_imp_div_less)
  moreover have "unat (drop_bit k w) = drop_bit k (unat w)"
    by (rule unat_drop_bit_eq)
  ultimately show ?thesis by (simp only: drop_bit_eq_div)
qed

lemma peek_bits_ok:
  assumes "n \<le> 32"
  obtains key where "bitstream_peek_bits is n = Inr key" "unat key < 2 ^ unat n"
    "n \<noteq> 0 \<Longrightarrow> key = drop_bit (32 - unat n) (bitbuf is)"
proof (cases "n = 0")
  case True
  then show ?thesis using that [of 0] by (simp add: bitstream_peek_bits_def)
next
  case False
  from assms have n32: "unat n \<le> 32" by (simp add: word_le_nat_alt)
  from False have npos: "0 < unat n" by (simp add: unat_gt_0)
  have u: "unat (32 - n) = 32 - unat n" using assms by (simp add: unat_sub)
  then have lt: "32 - n < 32" using npos by (simp add: word_less_nat_alt)
  have "unat (drop_bit (32 - unat n) (bitbuf is)) < 2 ^ (32 - (32 - unat n))"
    by (rule unat_drop_bit_u32_less) simp
  then have "unat (drop_bit (32 - unat n) (bitbuf is)) < 2 ^ unat n"
    using n32 by simp
  then show ?thesis
    using that [of "drop_bit (32 - unat n) (bitbuf is)"] False lt u
    by (simp add: bitstream_peek_bits_def shr32_def)
qed

lemma remove_bits_ok:
  "n < 32 \<Longrightarrow> bitstream_remove_bits is n =
     Inr (is\<lparr>bitbuf := push_bit (unat n) (bitbuf is), bitsleft := bitsleft is - n\<rparr>)"
  by (simp add: bitstream_remove_bits_def shl32_def)

lemma valid_decode_table_entry:
  assumes "valid_decode_table tbl tb ml" "k < 2 ^ unat tb"
  shows "k < length tbl"
    and "(ucast (tbl ! k) :: u32) < 0xC000 \<Longrightarrow> drop_bit 11 (ucast (tbl ! k) :: u32) \<le> ml"
    and "\<not> (ucast (tbl ! k) :: u32) < 0xC000 \<Longrightarrow>
           tree_ok tbl (unat ml - unat tb) (ucast (tbl ! k))"
proof -
  from assms show len: "k < length tbl" by (simp add: valid_decode_table_def)
  with assms have "tbl ! k \<in> set (take (2 ^ unat tb) tbl)"
    by (metis in_set_conv_nth length_take min_less_iff_conj nth_take)
  with assms(1) have "if (ucast (tbl ! k) :: u32) < 0xC000
                     then drop_bit 11 (ucast (tbl ! k) :: u32) \<le> ml
                     else tree_ok tbl (unat ml - unat tb) (ucast (tbl ! k))"
    unfolding valid_decode_table_def list_all_iff by blast
  then show "(ucast (tbl ! k) :: u32) < 0xC000 \<Longrightarrow> drop_bit 11 (ucast (tbl ! k) :: u32) \<le> ml"
    and "\<not> (ucast (tbl ! k) :: u32) < 0xC000 \<Longrightarrow>
           tree_ok tbl (unat ml - unat tb) (ucast (tbl ! k))"
    by simp_all
qed

text \<open>
  C3. For every stream state with \<open>next \<le> end\<close> and every valid decode table for
  codewords of at most \<open>max_codeword_len\<close> bits (with \<open>table_bits \<le> max_codeword_len\<close>
  and \<open>max_codeword_len \<le> 16\<close>, the limit of \<^verbatim>\<open>bitstream_ensure_bits\<close>),
  \<^verbatim>\<open>read_huffsym\<close> returns a symbol: the tree walk terminates, no fault occurs, the
  number \<open>c\<close> of bits removed after the refill (the bit buffer is shifted left by \<open>c\<close>,
  \<open>bitsleft\<close> drops by \<open>c\<close>) is at most \<open>max_codeword_len\<close>, and the cursor stays at or
  below \<open>end\<close>. Nothing is assumed about the remaining input, so
  this covers an exhausted stream, where the refill pads with zero bits.
\<close>

theorem read_huffsym_terminates:
  assumes inv: "nextp is \<le> endp is"
    and tbl: "valid_decode_table tbl table_bits max_codeword_len"
    and tb: "table_bits \<le> max_codeword_len" and ml: "max_codeword_len \<le> 16"
  shows "\<exists>sym is1 is' c.
           bitstream_ensure_bits mem is max_codeword_len = Inr is1 \<and>
           read_huffsym mem is tbl table_bits max_codeword_len = Some (Inr (sym, is')) \<and>
           c \<le> unat max_codeword_len \<and>
           bitsleft is' = bitsleft is1 - of_nat c \<and>
           bitbuf is' = push_bit c (bitbuf is1) \<and>
           max_codeword_len \<le> bitsleft is1 \<and>
           nextp is' = nextp is1 \<and> nextp is' \<le> endp is' \<and> endp is' = endp is"
proof -
  from ensure_bits_ok [OF inv ml, of mem] obtain is1 where
    e: "bitstream_ensure_bits mem is max_codeword_len = Inr is1"
       "max_codeword_len \<le> bitsleft is1" "endp is1 = endp is" "nextp is1 \<le> endp is1"
    by blast
  from tb ml have tb32: "table_bits \<le> 32" by unat_arith
  from peek_bits_ok [OF tb32, of is1] obtain key where
    p: "bitstream_peek_bits is1 table_bits = Inr key" "unat key < 2 ^ unat table_bits"
    by blast
  let ?e = "ucast (tbl ! unat key) :: u32"
  note v = valid_decode_table_entry [OF tbl p(2)]
  have ml': "unat max_codeword_len \<le> 16" using ml by (simp add: word_le_nat_alt)
  have tb': "unat table_bits \<le> unat max_codeword_len" using tb by (simp add: word_le_nat_alt)
  show ?thesis
  proof (cases "?e < 0xC000")
    case True
    let ?n = "drop_bit 11 ?e"
    from v(2) [OF True] have n: "?n \<le> max_codeword_len" .
    then have n': "unat ?n \<le> unat max_codeword_len" by (simp add: word_le_nat_alt)
    with ml' have "?n < 32" by (simp add: word_less_nat_alt)
    note r = remove_bits_ok [OF this, of is1]
    have "read_huffsym mem is tbl table_bits max_codeword_len =
            Some (Inr (?e AND 0x7FF,
              is1\<lparr>bitbuf := push_bit (unat ?n) (bitbuf is1), bitsleft := bitsleft is1 - ?n\<rparr>))"
      using e(1) p(1) v(1) True r by (simp add: read_huffsym_def Let_def)
    with e n' show ?thesis
      by (intro exI [of _ "?e AND 0x7FF"] exI [of _ is1]
            exI [of _ "is1\<lparr>bitbuf := push_bit (unat ?n) (bitbuf is1),
                              bitsleft := bitsleft is1 - ?n\<rparr>"]
            exI [of _ "unat ?n"] conjI) simp_all
  next
    case False
    then have node: "0xC000 \<le> ?e" by (simp add: not_less)
    from tb' ml' have "table_bits < 32" by (simp add: word_less_nat_alt)
    note r = remove_bits_ok [OF this, of is1]
    let ?is2 = "is1\<lparr>bitbuf := push_bit (unat table_bits) (bitbuf is1),
                      bitsleft := bitsleft is1 - table_bits\<rparr>"
    from read_huffsym_loop_terminates [OF v(3) [OF False] node, of ?is2]
    obtain sym is' c where
      l: "read_huffsym_loop tbl ?is2 ?e = Some (Inr (sym, is'))"
         "c \<le> unat max_codeword_len - unat table_bits"
         "bitsleft is' = bitsleft ?is2 - of_nat c"
         "nextp is' = nextp ?is2" "endp is' = endp ?is2"
         and bb: "bitbuf is' = push_bit c (bitbuf ?is2)"
      by blast
    have "read_huffsym mem is tbl table_bits max_codeword_len = Some (Inr (sym, is'))"
      using e(1) p(1) v(1) False r l(1) by (simp add: read_huffsym_def Let_def)
    moreover have "bitsleft is' = bitsleft is1 - of_nat (unat table_bits + c)"
      using l(3) by simp
    moreover have "unat table_bits + c \<le> unat max_codeword_len" using l(2) tb' by arith
    moreover have "bitbuf is' = push_bit (unat table_bits + c) (bitbuf is1)"
      using bb by (simp add: add.commute)
    ultimately show ?thesis using e l(4,5)
      by (intro exI [of _ sym] exI [of _ is1] exI [of _ is'] exI [of _ "unat table_bits + c"] conjI)
         simp_all
  qed
qed

theorem read_huffsym_terminates_witness:
  "valid_decode_table [0x0805, 0xC002, 6, 7] 1 2 \<and>
   (\<exists>sym is1 is' c.
      bitstream_ensure_bits (bytes_at []) (init_input_bitstream 0 0) 2 = Inr is1 \<and>
      read_huffsym (bytes_at []) (init_input_bitstream 0 0) [0x0805, 0xC002, 6, 7] 1 2 =
        Some (Inr (sym, is')) \<and>
      c \<le> 2 \<and> bitsleft is' = bitsleft is1 - of_nat c \<and> nextp is' \<le> endp is')"
proof -
  have h: "nextp (init_input_bitstream 0 0) \<le> endp (init_input_bitstream 0 0)"
    by (simp add: init_input_bitstream_def)
  have v: "valid_decode_table [0x0805, 0xC002, 6, 7] 1 2"
    by (simp add: valid_decode_table_def)
  have t: "(1 :: u32) \<le> 2" "(2 :: u32) \<le> 16" by simp_all
  from read_huffsym_terminates [OF h v t, of "bytes_at []"] v show ?thesis
    by auto
qed

section \<open>Byte-granular reads and the cursor invariant\<close>

lemma load_bytes_ok:
  "p + n \<le> endp is \<Longrightarrow> load_bytes mem is p n = Inr (map mem [p..<p + n])"
proof (induction n arbitrary: p)
  case 0
  then show ?case by simp
next
  case (Suc n)
  then have "load_bytes mem is (Suc p) n = Inr (map mem [Suc p..<Suc p + n])" by simp
  with Suc.prems show ?case by (simp add: load_u8_def upt_rec [of p])
qed

lemma get_unaligned_le32_ok:
  "p + 3 < endp is \<Longrightarrow>
   get_unaligned_le32 mem is p =
     Inr (ucast (mem p) OR (push_bit 8 (ucast (mem (p + 1))) OR
           (push_bit 16 (ucast (mem (p + 2))) OR push_bit 24 (ucast (mem (p + 3))))))"
  by (simp add: get_unaligned_le32_def load_u8_def)

lemma size_t_of_ptrdiff_le: "0 \<le> d \<Longrightarrow> size_t_of_ptrdiff ws d \<le> nat d"
  unfolding size_t_of_ptrdiff_def
  by (metis nat_mono zmod_le_nonneg_dividend)

lemma size_t_of_ptrdiff_id:
  "0 \<le> d \<Longrightarrow> d < 2 ^ (8 * WORDSIZE ws) \<Longrightarrow> size_t_of_ptrdiff ws d = nat d"
  by (simp add: size_t_of_ptrdiff_def)

lemma read_byte_cases:
  assumes "nextp is \<le> endp is"
  shows "bitstream_read_byte mem is =
           (if nextp is = endp is then Inr (0, is)
            else Inr (mem (nextp is), is\<lparr>nextp := nextp is + 1\<rparr>))"
  using assms by (auto simp: bitstream_read_byte_def load_u8_def)

lemma read_u16_cases:
  assumes "nextp is \<le> endp is"
  shows "bitstream_read_u16 mem is =
           (if endp is - nextp is < 2 then Inr (0, is)
            else Inr (ucast (mem (nextp is)) OR push_bit 8 (ucast (mem (nextp is + 1))),
                      is\<lparr>nextp := nextp is + 2\<rparr>))"
proof (cases "endp is - nextp is < 2")
  case True
  with assms have "int (endp is) - int (nextp is) < 2" by arith
  with True show ?thesis by (simp add: bitstream_read_u16_def)
next
  case False
  with assms have "\<not> int (endp is) - int (nextp is) < 2" "nextp is + 1 < endp is" by arith+
  with False show ?thesis by (simp add: bitstream_read_u16_def get_unaligned_le16_ok)
qed

lemma read_u32_cases:
  assumes "nextp is \<le> endp is"
  shows "bitstream_read_u32 mem is =
           (if endp is - nextp is < 4 then Inr (0, is)
            else Inr (ucast (mem (nextp is)) OR (push_bit 8 (ucast (mem (nextp is + 1))) OR
                       (push_bit 16 (ucast (mem (nextp is + 2))) OR
                        push_bit 24 (ucast (mem (nextp is + 3))))),
                      is\<lparr>nextp := nextp is + 4\<rparr>))"
proof (cases "endp is - nextp is < 4")
  case True
  with assms have "int (endp is) - int (nextp is) < 4" by arith
  with True show ?thesis by (simp add: bitstream_read_u32_def)
next
  case False
  with assms have "\<not> int (endp is) - int (nextp is) < 4" "nextp is + 3 < endp is" by arith+
  with False show ?thesis by (simp add: bitstream_read_u32_def get_unaligned_le32_ok)
qed

lemma read_bytes_safe:
  assumes "nextp is \<le> endp is"
  shows "bitstream_read_bytes ws mem is count = Inr (None, is) \<or>
         (nextp is + count \<le> endp is \<and>
          bitstream_read_bytes ws mem is count =
            Inr (Some (map mem [nextp is..<nextp is + count]), is\<lparr>nextp := nextp is + count\<rparr>))"
proof (cases "size_t_of_ptrdiff ws (int (endp is) - int (nextp is)) < count")
  case True
  then show ?thesis by (simp add: bitstream_read_bytes_def)
next
  case False
  from assms have "0 \<le> int (endp is) - int (nextp is)" by simp
  from size_t_of_ptrdiff_le [OF this, of ws] False
  have "count \<le> nat (int (endp is) - int (nextp is))" by simp
  with assms have le: "nextp is + count \<le> endp is" by arith
  with False show ?thesis by (simp add: bitstream_read_bytes_def load_bytes_ok)
qed

lemma read_bytes_cases:
  assumes "nextp is \<le> endp is" "endp is - nextp is < 2 ^ (8 * WORDSIZE ws)"
  shows "bitstream_read_bytes ws mem is count =
           (if endp is - nextp is < count then Inr (None, is)
            else Inr (Some (map mem [nextp is..<nextp is + count]),
                      is\<lparr>nextp := nextp is + count\<rparr>))"
proof -
  have d: "0 \<le> int (endp is) - int (nextp is)" using assms(1) by simp
  have "int (endp is) - int (nextp is) = int (endp is - nextp is)" using assms(1) by simp
  also have "\<dots> < 2 ^ (8 * WORDSIZE ws)" using assms(2) by (metis of_nat_less_iff of_nat_numeral of_nat_power)
  finally have "size_t_of_ptrdiff ws (int (endp is) - int (nextp is)) = endp is - nextp is"
    using d by (simp add: size_t_of_ptrdiff_id)
  moreover have "\<not> endp is - nextp is < count \<Longrightarrow> nextp is + count \<le> endp is"
    using assms(1) by arith
  ultimately show ?thesis by (simp add: bitstream_read_bytes_def load_bytes_ok)
qed

lemma ensure_bits_no_read_past_end:
  assumes "nextp is \<le> endp is"
  shows "case bitstream_ensure_bits mem is n of
           Inl f \<Rightarrow> f \<noteq> ReadPastEnd
         | Inr is' \<Rightarrow> nextp is' \<le> endp is' \<and> endp is' = endp is"
proof (cases "bitsleft is < n \<and> 2 \<le> int (endp is) - int (nextp is)")
  case True
  then have "nextp is + 1 < endp is" by arith
  note g = get_unaligned_le16_ok [OF this, of mem]
  from True have "nextp is + 2 \<le> endp is" by arith
  with True g show ?thesis
    by (simp add: bitstream_ensure_bits_def shl32_def)
next
  case False
  with assms show ?thesis by (auto simp: bitstream_ensure_bits_def)
qed

lemma peek_bits_fault:
  "case bitstream_peek_bits is n of Inl f \<Rightarrow> f \<noteq> ReadPastEnd | Inr v \<Rightarrow> True"
  by (simp add: bitstream_peek_bits_def shr32_def)

lemma remove_bits_fault:
  "case bitstream_remove_bits is n of
     Inl f \<Rightarrow> f \<noteq> ReadPastEnd
   | Inr is' \<Rightarrow> nextp is' = nextp is \<and> endp is' = endp is"
  by (simp add: bitstream_remove_bits_def shl32_def)

lemma pop_bits_fault:
  "case bitstream_pop_bits is n of
     Inl f \<Rightarrow> f \<noteq> ReadPastEnd
   | Inr (v, is') \<Rightarrow> nextp is' = nextp is \<and> endp is' = endp is"
  by (simp add: bitstream_pop_bits_def bitstream_peek_bits_def bitstream_remove_bits_def
      shl32_def shr32_def)

lemma read_bits_fault:
  assumes "nextp is \<le> endp is"
  shows "case bitstream_read_bits mem is n of
           Inl f \<Rightarrow> f \<noteq> ReadPastEnd
         | Inr (v, is') \<Rightarrow> nextp is' \<le> endp is' \<and> endp is' = endp is"
proof (cases "bitstream_ensure_bits mem is n")
  case (Inl f)
  with ensure_bits_no_read_past_end [OF assms, of mem n] show ?thesis
    by (simp add: bitstream_read_bits_def)
next
  case (Inr is1)
  with ensure_bits_no_read_past_end [OF assms, of mem n]
  have "nextp is1 \<le> endp is1" "endp is1 = endp is" by simp_all
  with pop_bits_fault [of is1 n] Inr show ?thesis
    by (auto simp: bitstream_read_bits_def split: sum.splits)
qed

lemma run_op_invariant:
  assumes "nextp is \<le> endp is"
  shows "case run_op ws mem is op of
           Inl f \<Rightarrow> f \<noteq> ReadPastEnd
         | Inr (v, is') \<Rightarrow> nextp is' \<le> endp is' \<and> endp is' = endp is"
proof (cases op)
  case (Ensure n)
  with ensure_bits_no_read_past_end [OF assms, of mem n] show ?thesis
    by (simp split: sum.splits)
next
  case (Peek n)
  with peek_bits_fault [of "is" n] assms show ?thesis by (simp split: sum.splits)
next
  case (Remove n)
  with remove_bits_fault [of "is" n] assms show ?thesis by (simp split: sum.splits)
next
  case (Pop n)
  with pop_bits_fault [of "is" n] assms show ?thesis by (auto split: sum.splits)
next
  case (ReadBits n)
  with read_bits_fault [OF assms, of mem n] show ?thesis by (auto split: sum.splits)
next
  case ReadByte
  with assms show ?thesis by (auto simp: read_byte_cases)
next
  case ReadU16
  with assms show ?thesis by (auto simp: read_u16_cases)
next
  case ReadU32
  with assms show ?thesis by (auto simp: read_u32_cases)
next
  case (ReadBytes count)
  with read_bytes_safe [OF assms, of ws mem count] assms show ?thesis by auto
next
  case Align
  with assms show ?thesis by (simp add: bitstream_align_def)
qed

lemma run_ops_invariant:
  assumes "nextp is \<le> endp is"
  shows "case run_ops ws mem is ops of
           Inl f \<Rightarrow> f \<noteq> ReadPastEnd
         | Inr (vs, is') \<Rightarrow> nextp is' \<le> endp is' \<and> endp is' = endp is"
  using assms
proof (induction ops arbitrary: "is")
  case Nil
  then show ?case by simp
next
  case (Cons op ops)
  show ?case
  proof (cases "run_op ws mem is op")
    case (Inl f)
    with run_op_invariant [OF Cons.prems, of ws mem op] show ?thesis by simp
  next
    case (Inr r)
    obtain v is1 where r: "r = (v, is1)" by (cases r)
    with Inr run_op_invariant [OF Cons.prems, of ws mem op]
    have i: "nextp is1 \<le> endp is1" "endp is1 = endp is" by simp_all
    from Cons.IH [OF i(1)] i(2) Inr r show ?thesis
      by (auto split: sum.splits)
  qed
qed

text \<open>
  C5. \<^verbatim>\<open>init_input_bitstream\<close> establishes \<open>next \<le> end\<close>; every operation of the
  stream (ensure, peek, remove, pop, read bits, read byte, read u16, read u32, read
  bytes, align) preserves it and leaves \<open>end\<close> unchanged, and none of them loads a
  byte at or past \<open>end\<close>; the same holds after any sequence of operations started
  from \<^verbatim>\<open>init_input_bitstream\<close>.
\<close>

theorem cursor_never_exceeds_end:
  "nextp (init_input_bitstream buffer sz) \<le> endp (init_input_bitstream buffer sz) \<and>
   (nextp is \<le> endp is \<longrightarrow>
      (case run_op ws mem is op of
         Inl f \<Rightarrow> f \<noteq> ReadPastEnd
       | Inr (v, is') \<Rightarrow> nextp is' \<le> endp is' \<and> endp is' = endp is)) \<and>
   (case run_ops ws mem (init_input_bitstream buffer sz) ops of
      Inl f \<Rightarrow> f \<noteq> ReadPastEnd
    | Inr (vs, is') \<Rightarrow> nextp is' \<le> endp is' \<and> endp is' = buffer + unat sz)"
proof -
  have i: "nextp (init_input_bitstream buffer sz) \<le> endp (init_input_bitstream buffer sz)"
    by (simp add: init_input_bitstream_def)
  have e: "endp (init_input_bitstream buffer sz) = buffer + unat sz"
    by (simp add: init_input_bitstream_def)
  from run_ops_invariant [OF i, of ws mem ops] e
  have "case run_ops ws mem (init_input_bitstream buffer sz) ops of
          Inl f \<Rightarrow> f \<noteq> ReadPastEnd
        | Inr (vs, is') \<Rightarrow> nextp is' \<le> endp is' \<and> endp is' = buffer + unat sz"
    by (auto split: sum.splits)
  with i run_op_invariant [of "is" ws mem op] show ?thesis by blast
qed

theorem cursor_never_exceeds_end_witness:
  "nextp (init_input_bitstream 0 3) \<le> endp (init_input_bitstream 0 3) \<and>
   run_op W8 (bytes_at [1, 2, 3]) (init_input_bitstream 0 3) ReadU32 \<noteq> Inl ReadPastEnd \<and>
   run_ops W8 (bytes_at [1, 2, 3]) (init_input_bitstream 0 3)
     [ReadBits 4, ReadByte, ReadU16, ReadBytes 1, ReadU32] \<noteq> Inl ReadPastEnd"
  using cursor_never_exceeds_end [where buffer = 0 and sz = 3 and ws = W8
      and mem = "bytes_at [1, 2, 3]" and ?is = "init_input_bitstream 0 3" and op = ReadU32
      and ops = "[ReadBits 4, ReadByte, ReadU16, ReadBytes 1, ReadU32]"]
  by (auto split: sum.splits)

text \<open>
  C7. On a stream with \<open>next \<le> end\<close>: \<^verbatim>\<open>bitstream_read_byte\<close> returns 0 when no
  byte remains, \<^verbatim>\<open>bitstream_read_u16\<close> returns 0 when fewer than 2 bytes remain,
  \<^verbatim>\<open>bitstream_read_u32\<close> returns 0 when fewer than 4 bytes remain, and
  \<^verbatim>\<open>bitstream_read_bytes\<close> returns \<^verbatim>\<open>NULL\<close> exactly when fewer than \<open>count\<close> bytes
  remain (the remaining byte count fits \<^verbatim>\<open>size_t\<close>); in these cases the stream is
  unchanged. Otherwise each returns the little-endian value, or the bytes, at the
  cursor and advances it. No case is a fault: nothing is loaded at or past \<open>end\<close>.
\<close>

theorem byte_reads_at_end:
  assumes "nextp is \<le> endp is" and "endp is - nextp is < 2 ^ (8 * WORDSIZE ws)"
  shows "bitstream_read_byte mem is =
           (if endp is - nextp is = 0 then Inr (0, is)
            else Inr (mem (nextp is), is\<lparr>nextp := nextp is + 1\<rparr>)) \<and>
         bitstream_read_u16 mem is =
           (if endp is - nextp is < 2 then Inr (0, is)
            else Inr (ucast (mem (nextp is)) OR push_bit 8 (ucast (mem (nextp is + 1))),
                      is\<lparr>nextp := nextp is + 2\<rparr>)) \<and>
         bitstream_read_u32 mem is =
           (if endp is - nextp is < 4 then Inr (0, is)
            else Inr (ucast (mem (nextp is)) OR (push_bit 8 (ucast (mem (nextp is + 1))) OR
                       (push_bit 16 (ucast (mem (nextp is + 2))) OR
                        push_bit 24 (ucast (mem (nextp is + 3))))),
                      is\<lparr>nextp := nextp is + 4\<rparr>)) \<and>
         bitstream_read_bytes ws mem is count =
           (if endp is - nextp is < count then Inr (None, is)
            else Inr (Some (map mem [nextp is..<nextp is + count]),
                      is\<lparr>nextp := nextp is + count\<rparr>))"
proof -
  from assms(1) have "(nextp is = endp is) = (endp is - nextp is = 0)" by arith
  then show ?thesis
    using assms
    by (simp only: read_byte_cases read_u16_cases read_u32_cases read_bytes_cases)
qed

theorem byte_reads_at_end_witness:
  "bitstream_read_byte (bytes_at [7]) \<lparr>bitbuf = 0, bitsleft = 0, nextp = 1, endp = 1\<rparr> =
     Inr (0, \<lparr>bitbuf = 0, bitsleft = 0, nextp = 1, endp = 1\<rparr>) \<and>
   bitstream_read_u16 (bytes_at [7]) \<lparr>bitbuf = 0, bitsleft = 0, nextp = 0, endp = 1\<rparr> =
     Inr (0, \<lparr>bitbuf = 0, bitsleft = 0, nextp = 0, endp = 1\<rparr>) \<and>
   bitstream_read_bytes W4 (bytes_at [7]) \<lparr>bitbuf = 0, bitsleft = 0, nextp = 0, endp = 1\<rparr> 2 =
     Inr (None, \<lparr>bitbuf = 0, bitsleft = 0, nextp = 0, endp = 1\<rparr>) \<and>
   bitstream_read_bytes W4 (bytes_at [7]) \<lparr>bitbuf = 0, bitsleft = 0, nextp = 0, endp = 1\<rparr> 1 =
     Inr (Some [7], \<lparr>bitbuf = 0, bitsleft = 0, nextp = 1, endp = 1\<rparr>)"
  using byte_reads_at_end [of "\<lparr>bitbuf = 0, bitsleft = 0, nextp = 1, endp = 1\<rparr>" W4 "bytes_at [7]" 0]
    byte_reads_at_end [of "\<lparr>bitbuf = 0, bitsleft = 0, nextp = 0, endp = 1\<rparr>" W4 "bytes_at [7]" 2]
    byte_reads_at_end [of "\<lparr>bitbuf = 0, bitsleft = 0, nextp = 0, endp = 1\<rparr>" W4 "bytes_at [7]" 1]
  by (simp add: bytes_at_def)

lemma fast_record_length:
  fixes e :: u32
  assumes "e < 0xC000"
  shows "drop_bit 11 e < 32"
proof -
  from assms have "unat e < 49152" by (simp add: word_less_nat_alt)
  then have "unat e div 2 ^ 11 < 24" by simp
  moreover have "unat (drop_bit 11 e) = drop_bit 11 (unat e)" by (rule unat_drop_bit_eq)
  ultimately have "unat (drop_bit 11 e) < 24" by (simp only: drop_bit_eq_div)
  then show ?thesis by (simp add: word_less_nat_alt)
qed

text \<open>
  C8. When the bit buffer holds at least \<open>max_codeword_len\<close> bits after the refill
  and the table entry indexed by the next \<open>table_bits\<close> bits is a fast record (below
  \<open>0xC000\<close>), \<^verbatim>\<open>read_huffsym\<close> removes exactly the codeword length in the record's
  high 5 bits and returns exactly the symbol in its low 11 bits.
\<close>

theorem read_huffsym_fast_record:
  assumes "bitstream_ensure_bits mem is max_codeword_len = Inr is1"
    and "max_codeword_len \<le> bitsleft is1"
    and "bitstream_peek_bits is1 table_bits = Inr key"
    and "unat key < length decode_table"
    and "(ucast (decode_table ! unat key) :: u32) < 0xC000"
  shows "read_huffsym mem is decode_table table_bits max_codeword_len =
           Some (Inr (ucast (decode_table ! unat key) AND 0x7FF,
             is1\<lparr>bitbuf := push_bit (unat (drop_bit 11 (ucast (decode_table ! unat key) :: u32)))
                                (bitbuf is1),
                  bitsleft := bitsleft is1 - drop_bit 11 (ucast (decode_table ! unat key))\<rparr>))"
  using assms(1,3,4,5) remove_bits_ok [OF fast_record_length [OF assms(5)], of is1]
  by (simp add: read_huffsym_def Let_def)

theorem read_huffsym_fast_record_witness:
  "read_huffsym (bytes_at [0x00, 0x40]) (init_input_bitstream 0 2) [0x0805, 0xC002, 6, 7] 1 2 =
     Some (Inr (5, \<lparr>bitbuf = 0x80000000, bitsleft = 15, nextp = 2, endp = 2\<rparr>))"
proof -
  have e: "bitstream_ensure_bits (bytes_at [0x00, 0x40]) (init_input_bitstream 0 2) 2 =
             Inr \<lparr>bitbuf = 0x40000000, bitsleft = 16, nextp = 2, endp = 2\<rparr>"
    by (simp add: bitstream_ensure_bits_def init_input_bitstream_def get_unaligned_le16_def
        load_u8_def bytes_at_def shl32_def)
  have p: "bitstream_peek_bits \<lparr>bitbuf = 0x40000000, bitsleft = 16, nextp = 2, endp = 2\<rparr> 1 = Inr 0"
    by (simp add: bitstream_peek_bits_def shr32_def)
  from read_huffsym_fast_record [OF e _ p, of "[0x0805, 0xC002, 6, 7]"] show ?thesis
    by simp
qed

section \<open>Word copies of the match copier\<close>

lemma WORDSIZE_pos: "0 < WORDSIZE ws"
  by (cases ws) simp_all

lemma out_load_bytes_ok:
  "0 \<le> p \<Longrightarrow> nat p + n \<le> bufend \<Longrightarrow>
   out_load_bytes mem bufend p n = Inr (map mem [nat p..<nat p + n])"
proof (induction n arbitrary: p)
  case 0
  then show ?case by simp
next
  case (Suc n)
  from Suc.prems have "out_load_bytes mem bufend (p + 1) n = Inr (map mem [nat (p + 1)..<nat (p + 1) + n])"
    by (intro Suc.IH) auto
  moreover from Suc.prems have "nat (p + 1) = Suc (nat p)" by simp
  moreover from Suc.prems have "out_load mem bufend p = Inr (mem (nat p))"
    by (auto simp: out_load_def)
  ultimately show ?case by (simp add: upt_rec [of "nat p"])
qed

lemma out_store_bytes_ok:
  "p + length vs \<le> bufend \<Longrightarrow>
   out_store_bytes mem bufend p vs =
     Inr (\<lambda>q. if p \<le> q \<and> q < p + length vs then vs ! (q - p) else mem q)"
proof (induction vs arbitrary: p mem)
  case Nil
  then show ?case by (auto simp: fun_eq_iff)
next
  case (Cons v vs)
  then have "out_store_bytes (mem(p := v)) bufend (Suc p) vs =
      Inr (\<lambda>q. if Suc p \<le> q \<and> q < Suc p + length vs then vs ! (q - Suc p) else (mem(p := v)) q)"
    by (intro Cons.IH) simp
  moreover have "(\<lambda>q. if Suc p \<le> q \<and> q < Suc p + length vs then vs ! (q - Suc p) else (mem(p := v)) q)
      = (\<lambda>q. if p \<le> q \<and> q < p + length (v # vs) then (v # vs) ! (q - p) else mem q)"
    by (auto simp: fun_eq_iff nth_Cons' Suc_diff_le)
  ultimately show ?case using Cons.prems by (simp add: out_store_def)
qed

lemma bit_le_word:
  "bit (le_word vs) j \<longleftrightarrow> j < 64 \<and> j div 8 < length vs \<and> bit (vs ! (j div 8)) (j mod 8)"
proof (induction vs arbitrary: j)
  case Nil
  then show ?case by simp
next
  case (Cons v vs)
  show ?case
  proof (cases "j < 8")
    case True
    then show ?thesis by (auto simp: bit_simps dest: bit_imp_le_length)
  next
    case False
    then have "j div 8 = Suc ((j - 8) div 8)" "j mod 8 = (j - 8) mod 8"
      by (simp_all add: le_div_geq le_mod_geq)
    with False Cons.IH [of "j - 8"] show ?thesis
      by (auto simp: bit_simps dest: bit_imp_le_length)
  qed
qed

lemma le_word_bytes:
  assumes "length vs \<le> 8"
  shows "map (\<lambda>i. ucast (drop_bit (8 * i) (le_word vs)) :: u8) [0..<length vs] = vs"
proof (rule nth_equalityI)
  show "length (map (\<lambda>i. ucast (drop_bit (8 * i) (le_word vs)) :: u8) [0..<length vs]) = length vs"
    by simp
next
  fix i
  assume "i < length (map (\<lambda>i. ucast (drop_bit (8 * i) (le_word vs)) :: u8) [0..<length vs])"
  then have i: "i < length vs" by simp
  have "(ucast (drop_bit (8 * i) (le_word vs)) :: u8) = vs ! i"
  proof (rule bit_eqI)
    fix n
    assume "possible_bit TYPE(u8) n"
    then have n: "n < 8" by (simp add: possible_bit_word)
    then have "(8 * i + n) div 8 = i" "(8 * i + n) mod 8 = n" by simp_all
    moreover from i assms n have "8 * i + n < 64" by arith
    ultimately show "bit (ucast (drop_bit (8 * i) (le_word vs)) :: u8) n = bit (vs ! i) n"
      using i n by (simp add: bit_simps bit_le_word)
  qed
  with i show "map (\<lambda>i. ucast (drop_bit (8 * i) (le_word vs)) :: u8) [0..<length vs] ! i = vs ! i"
    by simp
qed

lemma WORDSIZE_le_8: "WORDSIZE ws \<le> 8"
  by (cases ws) simp_all

lemma bytes_of_word_of_bytes:
  assumes "length vs = WORDSIZE (word_size b)"
  shows "bytes_of_word b (word_of_bytes b vs) = vs"
proof -
  have 8: "length vs \<le> 8" using assms WORDSIZE_le_8 [of "word_size b"] by simp
  show ?thesis
  proof (cases "big_endian b")
    case True
    from 8 have "map (\<lambda>i. ucast (drop_bit (8 * i) (le_word (rev vs))) :: u8) [0..<length (rev vs)] = rev vs"
      by (intro le_word_bytes) simp
    with True assms show ?thesis by (simp add: bytes_of_word_def word_of_bytes_def)
  next
    case False
    with le_word_bytes [OF 8] assms show ?thesis
      by (simp add: bytes_of_word_def word_of_bytes_def)
  qed
qed

lemma length_bytes_of_word: "length (bytes_of_word b v) = WORDSIZE (word_size b)"
  by (simp add: bytes_of_word_def Let_def)

lemma copy_unaligned_word_ok:
  assumes "0 \<le> src" "nat src + WORDSIZE (word_size b) \<le> bufend"
    "dst + WORDSIZE (word_size b) \<le> bufend"
  shows "copy_unaligned_word b mem bufend src dst =
     Inr (\<lambda>q. if dst \<le> q \<and> q < dst + WORDSIZE (word_size b) then mem (nat src + (q - dst))
               else mem q)"
proof -
  let ?ws = "WORDSIZE (word_size b)"
  let ?vs = "map mem [nat src..<nat src + ?ws]"
  have g: "get_unaligned_word b mem bufend src = Inr (word_of_bytes b ?vs)"
    using assms by (simp add: get_unaligned_word_def out_load_bytes_ok)
  have bw: "bytes_of_word b (word_of_bytes b ?vs) = ?vs"
    by (rule bytes_of_word_of_bytes) simp
  have "put_unaligned_word b mem bufend (word_of_bytes b ?vs) dst =
      Inr (\<lambda>q. if dst \<le> q \<and> q < dst + length ?vs then ?vs ! (q - dst) else mem q)"
    unfolding put_unaligned_word_def bw
    by (rule out_store_bytes_ok) (use assms in simp)
  moreover have "(\<lambda>q. if dst \<le> q \<and> q < dst + length ?vs then ?vs ! (q - dst) else mem q) =
      (\<lambda>q. if dst \<le> q \<and> q < dst + ?ws then mem (nat src + (q - dst)) else mem q)"
    by (auto simp: fun_eq_iff)
  ultimately show ?thesis using g by (simp add: copy_unaligned_word_def)
qed

lemma byte_repeated_ucast: "byte_repeated x 1 (ucast x)"
proof -
  have "bit (ucast x :: size_t) j \<longleftrightarrow> j < 8 \<and> bit x (j mod 8)" for j
  proof (cases "j < 8")
    case True
    then show ?thesis by (simp add: bit_simps)
  next
    case False
    then have "\<not> bit x j" by (auto dest: bit_imp_le_length)
    with False show ?thesis by (simp add: bit_simps)
  qed
  then show ?thesis by (simp add: byte_repeated_def)
qed

lemma byte_repeated_double:
  assumes "byte_repeated x k v" "16 * k \<le> N" "N \<le> 64"
  shows "byte_repeated x (2 * k) (v OR take_bit N (push_bit (8 * k) v))"
proof -
  have "bit (v OR take_bit N (push_bit (8 * k) v)) j \<longleftrightarrow> j < 8 * (2 * k) \<and> bit x (j mod 8)" for j
  proof (cases "8 * k \<le> j")
    case False
    with assms(1) show ?thesis by (auto simp: byte_repeated_def bit_simps)
  next
    case True
    then obtain m where m: "j = 8 * k + m" using le_Suc_ex by blast
    have md: "(8 * k + m) mod 8 = m mod 8" by simp
    from assms(1) have "bit v m \<longleftrightarrow> m < 8 * k \<and> bit x (m mod 8)"
      by (simp add: byte_repeated_def)
    moreover from assms(1) have "\<not> bit v (8 * k + m)" by (simp add: byte_repeated_def)
    ultimately show ?thesis using assms(2,3) unfolding m md
      by (auto simp: bit_simps)
  qed
  then show ?thesis by (simp add: byte_repeated_def)
qed

lemma byte_repeated_same:
  assumes "byte_repeated x k v" "8 * k \<le> N"
  shows "byte_repeated x k (v OR take_bit N (push_bit 0 v))"
  using assms by (auto simp: byte_repeated_def bit_simps)

lemma repeat_byte_repeated: "byte_repeated x (WORDSIZE (word_size b)) (repeat_byte b x)"
proof -
  let ?N = "8 * WORDSIZE (word_size b)"
  let ?v1 = "ucast x OR take_bit ?N (push_bit 8 (ucast x)) :: size_t"
  let ?v2 = "?v1 OR take_bit ?N (push_bit 16 ?v1)"
  have N: "32 \<le> ?N" "?N \<le> 64" by (cases "word_size b"; simp)+
  have "byte_repeated x (2 * 1) (ucast x OR take_bit ?N (push_bit (8 * 1) (ucast x)))"
    by (rule byte_repeated_double [OF byte_repeated_ucast]) (use N in simp_all)
  then have 1: "byte_repeated x 2 ?v1" by simp
  have "byte_repeated x (2 * 2) (?v1 OR take_bit ?N (push_bit (8 * 2) ?v1))"
    by (rule byte_repeated_double [OF 1]) (use N in simp_all)
  then have 2: "byte_repeated x 4 ?v2" by simp
  show ?thesis
  proof (cases "word_size b")
    case W4
    have "byte_repeated x 4 (?v2 OR take_bit ?N (push_bit 0 ?v2))"
      by (rule byte_repeated_same [OF 2]) (use N in simp)
    with W4 show ?thesis by (simp add: repeat_byte_def size_t_trunc_def Let_def)
  next
    case W8
    have "byte_repeated x (2 * 4) (?v2 OR take_bit ?N (push_bit (8 * 4) ?v2))"
      by (rule byte_repeated_double [OF 2]) (use W8 in simp_all)
    with W8 show ?thesis by (simp add: repeat_byte_def size_t_trunc_def Let_def)
  qed
qed

lemma bytes_of_repeat_byte:
  "bytes_of_word b (repeat_byte b x) = replicate (WORDSIZE (word_size b)) x"
proof -
  let ?ws = "WORDSIZE (word_size b)"
  have byte: "(ucast (drop_bit (8 * i) (repeat_byte b x)) :: u8) = x" if "i < ?ws" for i
  proof (rule bit_eqI)
    fix n
    assume "possible_bit TYPE(u8) n"
    then have n: "n < 8" by (simp add: possible_bit_word)
    then have "(8 * i + n) mod 8 = n" by simp
    moreover from n that have "8 * i + n < 8 * ?ws" by arith
    moreover have "bit (repeat_byte b x) (8 * i + n) \<longleftrightarrow>
        8 * i + n < 8 * ?ws \<and> bit x ((8 * i + n) mod 8)"
      using repeat_byte_repeated [of x b] by (simp only: byte_repeated_def)
    ultimately show "bit (ucast (drop_bit (8 * i) (repeat_byte b x)) :: u8) n = bit x n"
      using n by (simp add: bit_simps)
  qed
  then have "map (\<lambda>i. ucast (drop_bit (8 * i) (repeat_byte b x)) :: u8) [0..<?ws] = replicate ?ws x"
    by (intro nth_equalityI) simp_all
  then show ?thesis by (simp add: bytes_of_word_def Let_def)
qed

lemma put_repeat_byte_ok:
  assumes "dst + WORDSIZE (word_size b) \<le> bufend"
  shows "put_unaligned_word b mem bufend (repeat_byte b x) dst =
     Inr (\<lambda>q. if dst \<le> q \<and> q < dst + WORDSIZE (word_size b) then x else mem q)"
proof -
  have "out_store_bytes mem bufend dst (replicate (WORDSIZE (word_size b)) x) =
      Inr (\<lambda>q. if dst \<le> q \<and> q < dst + length (replicate (WORDSIZE (word_size b)) x)
                then replicate (WORDSIZE (word_size b)) x ! (q - dst) else mem q)"
    by (rule out_store_bytes_ok) (use assms in simp)
  moreover have "(\<lambda>q. if dst \<le> q \<and> q < dst + length (replicate (WORDSIZE (word_size b)) x)
                then replicate (WORDSIZE (word_size b)) x ! (q - dst) else mem q) =
      (\<lambda>q. if dst \<le> q \<and> q < dst + WORDSIZE (word_size b) then x else mem q)"
    by (auto simp: fun_eq_iff)
  ultimately show ?thesis by (simp add: put_unaligned_word_def bytes_of_repeat_byte)
qed

section \<open>The copy loops\<close>

lemma lz_copy_words_ok:
  assumes "src = int dst - int off" "WORDSIZE (word_size b) \<le> off" "off \<le> dst" "dst < e"
    "e + WORDSIZE (word_size b) \<le> bufend + 1"
  shows "\<exists>mem'. lz_copy_words b mem bufend src dst e = Inr mem' \<and>
           (\<forall>q<dst. mem' q = mem q) \<and>
           (\<forall>q. dst \<le> q \<and> q < e \<longrightarrow> mem' q = mem' (q - off)) \<and>
           (\<forall>q\<ge>bufend. mem' q = mem q)"
  using assms
proof (induction "e - dst" arbitrary: mem src dst rule: less_induct)
  case less
  let ?ws = "WORDSIZE (word_size b)"
  let ?m1 = "\<lambda>q. if dst \<le> q \<and> q < dst + ?ws then mem (nat src + (q - dst)) else mem q"
  have ws: "0 < ?ws" by (rule WORDSIZE_pos)
  from less.prems have src: "0 \<le> src" "nat src = dst - off" by simp_all
  have c: "copy_unaligned_word b mem bufend src dst = Inr ?m1"
    by (rule copy_unaligned_word_ok) (use less.prems src in auto)
  have m1_lo: "?m1 q = mem q" if "q < dst" for q using that by simp
  have m1_hi: "?m1 q = mem q" if "bufend \<le> q" for q using that less.prems by simp
  have m1_in: "?m1 q = mem (q - off)" if "dst \<le> q" "q < dst + ?ws" for q
    using that less.prems src by simp
  show ?case
  proof (cases "dst + ?ws < e")
    case True
    have "\<exists>mem'. lz_copy_words b ?m1 bufend (src + int ?ws) (dst + ?ws) e = Inr mem' \<and>
           (\<forall>q<dst + ?ws. mem' q = ?m1 q) \<and>
           (\<forall>q. dst + ?ws \<le> q \<and> q < e \<longrightarrow> mem' q = mem' (q - off)) \<and>
           (\<forall>q\<ge>bufend. mem' q = ?m1 q)"
      by (rule less.hyps) (use True ws less.prems in auto)
    then obtain mem' where
      r: "lz_copy_words b ?m1 bufend (src + int ?ws) (dst + ?ws) e = Inr mem'"
      and lo: "\<And>q. q < dst + ?ws \<Longrightarrow> mem' q = ?m1 q"
      and per: "\<And>q. dst + ?ws \<le> q \<Longrightarrow> q < e \<Longrightarrow> mem' q = mem' (q - off)"
      and hi: "\<And>q. bufend \<le> q \<Longrightarrow> mem' q = ?m1 q"
      by blast
    have res: "lz_copy_words b mem bufend src dst e = Inr mem'"
      by (subst lz_copy_words.simps) (simp add: c True r)
    have "mem' q = mem q" if "q < dst" for q
      using lo [of q] m1_lo [OF that] that by simp
    moreover have "mem' q = mem' (q - off)" if "dst \<le> q" "q < e" for q
    proof (cases "q < dst + ?ws")
      case True
      with less.prems have qo: "q - off < dst" using that by arith
      have "mem' q = mem (q - off)" using lo [OF True] m1_in [OF that(1) True] by simp
      moreover have "mem' (q - off) = mem (q - off)"
        using lo [of "q - off"] m1_lo [OF qo] qo by simp
      ultimately show ?thesis by simp
    next
      case False
      then show ?thesis using per [of q] that by simp
    qed
    moreover have "mem' q = mem q" if "bufend \<le> q" for q
      using hi [OF that] m1_hi [OF that] by simp
    ultimately show ?thesis using res by blast
  next
    case False
    have res: "lz_copy_words b mem bufend src dst e = Inr ?m1"
      by (subst lz_copy_words.simps) (simp add: c False)
    have "?m1 q = ?m1 (q - off)" if "dst \<le> q" "q < e" for q
    proof -
      from that False have lt: "q < dst + ?ws" by simp
      with less.prems have qo: "q - off < dst" using that by arith
      show ?thesis using m1_in [OF that(1) lt] m1_lo [OF qo] by simp
    qed
    with m1_lo m1_hi res show ?thesis by blast
  qed
qed

lemma lz_fill_words_ok:
  assumes "dst < e" "e + WORDSIZE (word_size b) \<le> bufend + 1"
  shows "\<exists>mem'. lz_fill_words b mem bufend (repeat_byte b x) dst e = Inr mem' \<and>
           (\<forall>q<dst. mem' q = mem q) \<and>
           (\<forall>q. dst \<le> q \<and> q < e \<longrightarrow> mem' q = x) \<and>
           (\<forall>q\<ge>bufend. mem' q = mem q)"
  using assms
proof (induction "e - dst" arbitrary: mem dst rule: less_induct)
  case less
  let ?ws = "WORDSIZE (word_size b)"
  let ?m1 = "\<lambda>q. if dst \<le> q \<and> q < dst + ?ws then x else mem q"
  have ws: "0 < ?ws" by (rule WORDSIZE_pos)
  have c: "put_unaligned_word b mem bufend (repeat_byte b x) dst = Inr ?m1"
    by (rule put_repeat_byte_ok) (use less.prems in auto)
  show ?case
  proof (cases "dst + ?ws < e")
    case True
    have "\<exists>mem'. lz_fill_words b ?m1 bufend (repeat_byte b x) (dst + ?ws) e = Inr mem' \<and>
           (\<forall>q<dst + ?ws. mem' q = ?m1 q) \<and>
           (\<forall>q. dst + ?ws \<le> q \<and> q < e \<longrightarrow> mem' q = x) \<and>
           (\<forall>q\<ge>bufend. mem' q = ?m1 q)"
      by (rule less.hyps) (use True ws less.prems in auto)
    then obtain mem' where
      r: "lz_fill_words b ?m1 bufend (repeat_byte b x) (dst + ?ws) e = Inr mem'"
      and lo: "\<And>q. q < dst + ?ws \<Longrightarrow> mem' q = ?m1 q"
      and per: "\<And>q. dst + ?ws \<le> q \<Longrightarrow> q < e \<Longrightarrow> mem' q = x"
      and hi: "\<And>q. bufend \<le> q \<Longrightarrow> mem' q = ?m1 q"
      by blast
    have res: "lz_fill_words b mem bufend (repeat_byte b x) dst e = Inr mem'"
      by (subst lz_fill_words.simps) (simp add: c True r)
    have "mem' q = mem q" if "q < dst" for q
      using lo [of q] that by simp
    moreover have "mem' q = x" if "dst \<le> q" "q < e" for q
      using lo [of q] per [of q] that by (cases "q < dst + ?ws") simp_all
    moreover have "mem' q = mem q" if "bufend \<le> q" for q
      using hi [OF that] that less.prems by simp
    ultimately show ?thesis using res by blast
  next
    case False
    have res: "lz_fill_words b mem bufend (repeat_byte b x) dst e = Inr ?m1"
      by (subst lz_fill_words.simps) (simp add: c False)
    have "?m1 q = x" if "dst \<le> q" "q < e" for q using that False by simp
    moreover have "?m1 q = mem q" if "q < dst" for q using that by simp
    moreover have "?m1 q = mem q" if "bufend \<le> q" for q using that less.prems by simp
    ultimately show ?thesis using res by blast
  qed
qed

lemma copy_byte_ok:
  assumes "src = int dst - int off" "off \<le> dst" "dst < bufend"
  shows "copy_byte mem bufend src dst = Inr (mem(dst := mem (dst - off)))"
proof -
  from assms have "0 \<le> src" "src < int bufend" "nat src = dst - off" by simp_all
  with assms(3) show ?thesis by (simp add: copy_byte_def out_load_def out_store_def)
qed

lemma lz_copy_bytes_ok:
  assumes "unat len = Suc n" "src = int dst - int off" "off \<le> dst" "dst + Suc n \<le> bufend"
  shows "lz_copy_bytes mem bufend src dst len = Inr (ref_copy mem dst off (Suc n), dst + Suc n)"
  using assms
proof (induction n arbitrary: mem src dst len)
  case 0
  then have "len = 1" by (simp add: word_unat_eq_iff)
  moreover have "copy_byte mem bufend src dst = Inr (mem(dst := mem (dst - off)))"
    by (rule copy_byte_ok) (use 0 in auto)
  ultimately show ?case by (subst lz_copy_bytes.simps) simp
next
  case (Suc n)
  have c: "copy_byte mem bufend src dst = Inr (mem(dst := mem (dst - off)))"
    by (rule copy_byte_ok) (use Suc.prems in auto)
  from Suc.prems(1) have nz: "len \<noteq> 0" by auto
  then have u: "unat (len - 1) = Suc n" using Suc.prems(1) by (simp add: unat_minus_one)
  then have nz1: "len - 1 \<noteq> 0" by auto
  have "lz_copy_bytes (mem(dst := mem (dst - off))) bufend (src + 1) (dst + 1) (len - 1) =
      Inr (ref_copy (mem(dst := mem (dst - off))) (dst + 1) off (Suc n), dst + 1 + Suc n)"
    by (rule Suc.IH [OF u]) (use Suc.prems in auto)
  then show ?case using c nz1 by (subst lz_copy_bytes.simps) simp
qed

lemma ref_copy_outside:
  "q < dst \<or> dst + n \<le> q \<Longrightarrow> ref_copy mem dst off n q = mem q"
  by (induction n arbitrary: mem dst) auto

lemma ref_copy_periodic:
  assumes "off \<le> dst" "dst \<le> q" "q < dst + n"
  shows "ref_copy mem dst off n q = ref_copy mem dst off n (q - off)"
  using assms
proof (induction n arbitrary: mem dst)
  case 0
  then show ?case by simp
next
  case (Suc n)
  let ?m1 = "mem(dst := mem (dst - off))"
  show ?case
  proof (cases "q = dst")
    case True
    have "ref_copy ?m1 (Suc dst) off n dst = ?m1 dst" by (rule ref_copy_outside) simp
    moreover have "ref_copy ?m1 (Suc dst) off n (dst - off) = ?m1 (dst - off)"
      by (rule ref_copy_outside) arith
    ultimately show ?thesis using True by simp
  next
    case False
    with Suc.prems have "ref_copy ?m1 (Suc dst) off n q = ref_copy ?m1 (Suc dst) off n (q - off)"
      by (intro Suc.IH) auto
    then show ?thesis by simp
  qed
qed

lemma periodic_closed_form:
  fixes off dst e :: nat and m mem :: memory
  assumes off: "1 \<le> off" "off \<le> dst"
    and lo: "\<And>q. q < dst \<Longrightarrow> m q = mem q"
    and per: "\<And>q. dst \<le> q \<Longrightarrow> q < e \<Longrightarrow> m q = m (q - off)"
    and q: "dst \<le> q" "q < e"
  shows "m q = mem (dst - off + (q - dst) mod off)"
  using q
proof (induction q rule: less_induct)
  case (less q)
  show ?case
  proof (cases "q - off < dst")
    case True
    with less.prems off have "(q - dst) mod off = q - dst" by simp
    moreover have "m q = mem (q - off)" using per [OF less.prems] lo [OF True] by simp
    ultimately show ?thesis using off less.prems by simp
  next
    case False
    then have ge: "dst \<le> q - off" by simp
    have "m (q - off) = mem (dst - off + (q - off - dst) mod off)"
      by (rule less.IH) (use ge off less.prems in auto)
    moreover have "q - dst = (q - off - dst) + off" using ge off by arith
    then have "(q - off - dst) mod off = (q - dst) mod off" by simp
    ultimately show ?thesis using per [OF less.prems] by simp
  qed
qed

lemma lz_copy_bytewise_ok:
  assumes off: "unat offset \<le> dst" and room: "dst + unat len \<le> bufend"
    and pre: "(if 3 \<le> min_length then 2 else if 2 \<le> min_length then 1 else 0) < unat len"
  shows "lz_copy_bytewise mem dst len offset bufend min_length =
           Inr (ref_copy mem dst (unat offset) (unat len), dst + unat len)"
proof -
  let ?off = "unat offset"
  let ?src = "int dst - int ?off"
  let ?m1 = "mem(dst := mem (dst - ?off))"
  let ?m2 = "?m1(Suc dst := ?m1 (Suc dst - ?off))"
  from pre have nz: "len \<noteq> 0" by (auto split: if_splits)
  from pre obtain n where n: "unat len = Suc n" by (cases "unat len") auto
  have u1: "unat (len - 1) = n" using n nz by (simp add: unat_minus_one)
  have c1: "copy_byte mem bufend ?src dst = Inr ?m1"
    by (rule copy_byte_ok) (use off room n in auto)
  consider (none) "\<not> 2 \<le> min_length" "\<not> 3 \<le> min_length"
    | (one) "2 \<le> min_length" "\<not> 3 \<le> min_length"
    | (two) "3 \<le> min_length"
    by blast
  then show ?thesis
  proof cases
    case none
    have "lz_copy_bytes mem bufend ?src dst len = Inr (ref_copy mem dst ?off (Suc n), dst + Suc n)"
      by (rule lz_copy_bytes_ok [OF n]) (use off room n in auto)
    with none n show ?thesis by (simp add: lz_copy_bytewise_def)
  next
    case one
    with pre n obtain k where k: "n = Suc k" by (cases n) auto
    have "lz_copy_bytes ?m1 bufend (?src + 1) (dst + 1) (len - 1) =
        Inr (ref_copy ?m1 (dst + 1) ?off (Suc k), dst + 1 + Suc k)"
      by (rule lz_copy_bytes_ok) (use u1 k off room n in auto)
    with one n k c1 show ?thesis by (simp add: lz_copy_bytewise_def)
  next
    case two
    then have two': "2 \<le> min_length" by (simp add: word_le_nat_alt)
    from two pre n obtain k where k: "n = Suc (Suc k)"
      by (cases n; cases "n - 1") auto
    have nz1: "len - 1 \<noteq> 0" using u1 k by auto
    have "unat (len - 1 - 1) = unat (len - 1) - 1" by (rule unat_minus_one [OF nz1])
    also have "\<dots> = Suc k" using u1 k by simp
    finally have u2: "unat (len - 1 - 1) = Suc k" .
    have c2: "copy_byte ?m1 bufend (?src + 1) (dst + 1) = Inr ?m2"
      using copy_byte_ok [of "?src + 1" "dst + 1" ?off bufend ?m1] off room n k by simp
    have "lz_copy_bytes ?m2 bufend (?src + 1 + 1) (dst + 1 + 1) (len - 1 - 1) =
        Inr (ref_copy ?m2 (dst + 1 + 1) ?off (Suc k), dst + 1 + 1 + Suc k)"
      by (rule lz_copy_bytes_ok [OF u2]) (use off room n k in auto)
    with two two' n k c1 c2 show ?thesis by (simp add: lz_copy_bytewise_def)
  qed
qed

lemma lz_copy_words_unrolled:
  "(case copy_unaligned_word b mem bufend src dst of Inl f \<Rightarrow> Inl f | Inr mem' \<Rightarrow>
      if dst + WORDSIZE (word_size b) < e then
        (case lz_copy_words b mem' bufend (src + int (WORDSIZE (word_size b)))
                (dst + WORDSIZE (word_size b)) e of
           Inl f \<Rightarrow> Inl f | Inr mem'' \<Rightarrow> Inr (mem'', e))
      else Inr (mem', e)) =
   (case lz_copy_words b mem bufend src dst e of Inl f \<Rightarrow> Inl f | Inr mem' \<Rightarrow> Inr (mem', e))"
  by (subst (2) lz_copy_words.simps) (simp split: sum.splits)

lemma precopies_bound:
  fixes len min_length :: u32
  assumes "1 \<le> len" "min_length \<le> len \<or> 3 \<le> len"
  shows "(if 3 \<le> min_length then 2 else if 2 \<le> min_length then 1 else 0) < unat len"
  using assms by (auto simp: word_le_nat_alt)

lemma lz_copy_ok:
  assumes off: "unat offset \<le> dst" and room: "dst + unat len \<le> bufend"
    and len: "1 \<le> len" and pre: "min_length \<le> len \<or> 3 \<le> len"
  shows "\<exists>mem'. lz_copy b mem dst len offset bufend min_length = Inr (mem', dst + unat len) \<and>
           (\<forall>q < dst + unat len. mem' q = ref_copy mem dst (unat offset) (unat len) q) \<and>
           (\<forall>q \<ge> bufend. mem' q = mem q)"
proof -
  let ?off = "unat offset" and ?e = "dst + unat len" and ?ws = "WORDSIZE (word_size b)"
  let ?src = "int dst - int ?off"
  let ?ref = "ref_copy mem dst ?off (unat len)"
  from len have n: "1 \<le> unat len" by (simp add: word_le_nat_alt)
  have ref_lo: "?ref q = mem q" if "q < dst" for q using that by (simp add: ref_copy_outside)
  have ref_hi: "?ref q = mem q" if "bufend \<le> q" for q
    using that room by (simp add: ref_copy_outside)
  have ref_per: "?ref q = ?ref (q - ?off)" if "dst \<le> q" "q < ?e" for q
    using off that by (rule ref_copy_periodic)
  have bytewise: "lz_copy_bytewise mem dst len offset bufend min_length = Inr (?ref, ?e)"
    by (rule lz_copy_bytewise_ok [OF off room precopies_bound [OF len pre]])
  have slow: ?thesis if "lz_copy b mem dst len offset bufend min_length =
      lz_copy_bytewise mem dst len offset bufend min_length"
    using that bytewise ref_hi by simp
  show ?thesis
  proof (cases "fast_unaligned_access b \<and> int bufend - int ?e \<ge> int ?ws - 1")
    case False
    then have "lz_copy b mem dst len offset bufend min_length =
        lz_copy_bytewise mem dst len offset bufend min_length"
      by (auto simp: lz_copy_def Let_def)
    then show ?thesis by (rule slow)
  next
    case True
    then have space: "?e + ?ws \<le> bufend + 1" by arith
    have ws: "0 < ?ws" by (rule WORDSIZE_pos)
    consider (words) "?ws \<le> ?off" | (run) "\<not> ?ws \<le> ?off" "offset = 1"
      | (bytes) "\<not> ?ws \<le> ?off" "offset \<noteq> 1" by blast
    then show ?thesis
    proof cases
      case words
      from n have dlt: "dst < ?e" by simp
      from lz_copy_words_ok [where mem = mem, OF refl words off dlt space] obtain mem' where
        r: "lz_copy_words b mem bufend ?src dst ?e = Inr mem'"
        and lo: "\<And>q. q < dst \<Longrightarrow> mem' q = mem q"
        and per: "\<And>q. dst \<le> q \<Longrightarrow> q < ?e \<Longrightarrow> mem' q = mem' (q - ?off)"
        and hi: "\<And>q. bufend \<le> q \<Longrightarrow> mem' q = mem q"
        by blast
      have res: "lz_copy b mem dst len offset bufend min_length = Inr (mem', ?e)"
        using True words r
        by (simp add: lz_copy_def Let_def lz_copy_words_unrolled)
      from words ws have o1: "1 \<le> ?off" by simp
      have "mem' q = ?ref q" if "q < ?e" for q
      proof (cases "q < dst")
        case True
        then show ?thesis using lo ref_lo by simp
      next
        case False
        then have q: "dst \<le> q" by simp
        have "mem' q = mem (dst - ?off + (q - dst) mod ?off)"
          by (rule periodic_closed_form [where m = mem' and mem = mem, OF o1 off lo per q that])
        moreover have "?ref q = mem (dst - ?off + (q - dst) mod ?off)"
          by (rule periodic_closed_form [where m = ?ref and mem = mem, OF o1 off ref_lo ref_per q that])
        ultimately show ?thesis by simp
      qed
      with res hi show ?thesis by blast
    next
      case run
      then have o1: "?off = 1" by simp
      with off have d1: "1 \<le> dst" by simp
      let ?x = "mem (dst - 1)"
      from d1 room n have "out_load mem bufend (int dst - 1) = Inr (mem (nat (int dst - 1)))"
        by (auto simp: out_load_def)
      moreover from d1 have "nat (int dst - 1) = dst - 1" by simp
      ultimately have ld: "out_load mem bufend (int dst - 1) = Inr ?x" by simp
      from n have dlt: "dst < ?e" by simp
      from lz_fill_words_ok [where mem = mem and x = ?x, OF dlt space] obtain mem' where
        r: "lz_fill_words b mem bufend (repeat_byte b ?x) dst ?e = Inr mem'"
        and lo: "\<And>q. q < dst \<Longrightarrow> mem' q = mem q"
        and fill: "\<And>q. dst \<le> q \<Longrightarrow> q < ?e \<Longrightarrow> mem' q = ?x"
        and hi: "\<And>q. bufend \<le> q \<Longrightarrow> mem' q = mem q"
        by blast
      have res: "lz_copy b mem dst len offset bufend min_length = Inr (mem', ?e)"
        using True run ld r by (simp add: lz_copy_def Let_def)
      have "mem' q = ?ref q" if "q < ?e" for q
      proof (cases "q < dst")
        case True
        then show ?thesis using lo ref_lo by simp
      next
        case False
        then have q: "dst \<le> q" by simp
        have "?ref q = mem (dst - ?off + (q - dst) mod ?off)"
          by (rule periodic_closed_form [where m = ?ref and mem = mem, OF _ off ref_lo ref_per q that])
             (simp add: o1)
        then show ?thesis using fill [OF q that] o1 by simp
      qed
      with res hi show ?thesis by blast
    next
      case bytes
      then have "lz_copy b mem dst len offset bufend min_length =
          lz_copy_bytewise mem dst len offset bufend min_length"
        by (simp add: lz_copy_def Let_def)
      then show ?thesis by (rule slow)
    qed
  qed
qed

section \<open>The match copier against the reference copy\<close>

text \<open>
  C1 (amended). For every build and every call of \<^verbatim>\<open>lz_copy\<close> with
  \<open>1 \<le> offset \<le> dst\<close>, \<open>length \<ge> 1\<close>, \<open>dst + length \<le> bufend\<close> and, in addition,
  \<open>length \<ge> min_length\<close> or \<open>length \<ge> 3\<close>: the call returns \<open>dst + length\<close>, and every
  byte below \<open>dst + length\<close> is the byte the reference left-to-right copy leaves there;
  the byte at \<open>dst + i\<close> is the old byte at \<open>dst - offset + i mod offset\<close> (a periodic
  repeat, and one repeated byte when \<open>offset = 1\<close>).
\<close>

theorem lz_copy_matches_reference:
  assumes "1 \<le> offset" and "unat offset \<le> dst"
    and "1 \<le> length'" and "dst + unat length' \<le> bufend"
    and "min_length \<le> length' \<or> 3 \<le> length'"
  shows "\<exists>mem'. lz_copy b mem dst length' offset bufend min_length =
                  Inr (mem', dst + unat length') \<and>
           (\<forall>q < dst + unat length'.
              mem' q = ref_copy mem dst (unat offset) (unat length') q) \<and>
           (\<forall>i < unat length'.
              mem' (dst + i) = mem (dst - unat offset + i mod unat offset))"
proof -
  from lz_copy_ok [OF assms(2,4,3,5), of b mem] obtain mem' where
    r: "lz_copy b mem dst length' offset bufend min_length = Inr (mem', dst + unat length')"
    and eq: "\<And>q. q < dst + unat length' \<Longrightarrow>
               mem' q = ref_copy mem dst (unat offset) (unat length') q"
    by blast
  let ?ref = "ref_copy mem dst (unat offset) (unat length')"
  from assms(1) have o1: "1 \<le> unat offset" by (simp add: word_le_nat_alt)
  have "mem' (dst + i) = mem (dst - unat offset + i mod unat offset)" if "i < unat length'" for i
  proof -
    have "?ref (dst + i) = mem (dst - unat offset + (dst + i - dst) mod unat offset)"
    proof (rule periodic_closed_form [where m = ?ref and mem = mem and e = "dst + unat length'",
          OF o1 assms(2)])
      show "?ref q = mem q" if "q < dst" for q using that by (simp add: ref_copy_outside)
      show "?ref q = ?ref (q - unat offset)" if "dst \<le> q" "q < dst + unat length'" for q
        using assms(2) that by (rule ref_copy_periodic)
      show "dst \<le> dst + i" by simp
      show "dst + i < dst + unat length'" using that by simp
    qed
    with eq [of "dst + i"] that show ?thesis by simp
  qed
  with r eq show ?thesis by blast
qed

theorem lz_copy_matches_reference_witness:
  "\<exists>mem'. lz_copy \<lparr>fast_unaligned_access = True, word_size = W4, big_endian = False\<rparr>
            (bytes_at [1, 2, 3, 4, 5, 0, 0, 0, 0, 0, 0, 0, 0, 0]) 5 6 2 14 3 = Inr (mem', 11) \<and>
          map mem' [5, 6, 7, 8, 9, 10] = [4, 5, 4, 5, 4, 5]"
proof -
  have "(1 :: u32) \<le> 2" "unat (2 :: u32) \<le> 5" "(1 :: u32) \<le> 6" "5 + unat (6 :: u32) \<le> 14"
    "(3 :: u32) \<le> 6 \<or> (3 :: u32) \<le> 6"
    by simp_all
  from lz_copy_matches_reference [OF this,
      of "\<lparr>fast_unaligned_access = True, word_size = W4, big_endian = False\<rparr>"
         "bytes_at [1, 2, 3, 4, 5, 0, 0, 0, 0, 0, 0, 0, 0, 0]"]
  obtain mem' where
    r: "lz_copy \<lparr>fast_unaligned_access = True, word_size = W4, big_endian = False\<rparr>
            (bytes_at [1, 2, 3, 4, 5, 0, 0, 0, 0, 0, 0, 0, 0, 0]) 5 6 2 14 3 = Inr (mem', 11)"
    and c: "\<And>i. i < 6 \<Longrightarrow> mem' (5 + i) =
              bytes_at [1, 2, 3, 4, 5, 0, 0, 0, 0, 0, 0, 0, 0, 0] (5 - 2 + i mod 2)"
    by auto
  from c [of 0] c [of 1] c [of 2] c [of 3] c [of 4] c [of 5]
  have "map mem' [5, 6, 7, 8, 9, 10] = [4, 5, 4, 5, 4, 5]"
    by (simp add: bytes_at_def)
  with r show ?thesis by (intro exI [of _ mem'] conjI)
qed

text \<open>
  C1 as stated fails: with \<open>offset = 1 \<le> dst\<close>, \<open>length = 1\<close> and room before
  \<open>bufend\<close>, but \<open>min_length = 3\<close>, the bytewise copy does not return \<open>dst + length\<close>:
  it runs on until it stores at \<open>bufend\<close>.
\<close>

theorem lz_copy_short_match_counterexample:
  "(1 :: u32) \<le> 1 \<and> unat (1 :: u32) \<le> (1 :: nat) \<and> 1 + unat (1 :: u32) \<le> (4 :: nat) \<and>
   lz_copy \<lparr>fast_unaligned_access = False, word_size = W8, big_endian = False\<rparr>
     (bytes_at [9, 0, 0, 0]) 1 1 1 4 3 = Inl WritePastBufend"
  by (simp add: lz_copy_def lz_copy_bytewise_def lz_copy_bytes.simps copy_byte_def out_load_def
      out_store_def bytes_at_def)

text \<open>
  C2 (amended). For every build and every call of \<^verbatim>\<open>lz_copy\<close> with \<open>offset \<le> dst\<close>,
  \<open>dst + length \<le> bufend\<close>, \<open>length \<ge> 1\<close> and, in addition, \<open>length \<ge> min_length\<close> or
  \<open>length \<ge> 3\<close>: no store reaches \<open>bufend\<close> (the call is no fault), also on the word
  paths that write past \<open>dst + length\<close>, and every byte from \<open>bufend\<close> on is unchanged.
\<close>

theorem lz_copy_stays_below_bufend:
  assumes "unat offset \<le> dst" and "dst + unat length' \<le> bufend" and "1 \<le> length'"
    and "min_length \<le> length' \<or> 3 \<le> length'"
  shows "lz_copy b mem dst length' offset bufend min_length \<noteq> Inl WritePastBufend \<and>
         (\<exists>mem'. lz_copy b mem dst length' offset bufend min_length =
                   Inr (mem', dst + unat length') \<and>
                 (\<forall>q \<ge> bufend. mem' q = mem q))"
  using lz_copy_ok [OF assms, of b mem] by auto

theorem lz_copy_stays_below_bufend_witness:
  "lz_copy \<lparr>fast_unaligned_access = True, word_size = W8, big_endian = False\<rparr>
     (bytes_at [1, 2, 3, 4, 5, 6, 7, 8, 0, 0, 0, 0, 0, 0, 0, 0]) 8 2 8 16 2 \<noteq> Inl WritePastBufend"
proof -
  have "unat (8 :: u32) \<le> 8" "8 + unat (2 :: u32) \<le> 16" "(1 :: u32) \<le> 2"
    "(2 :: u32) \<le> 2 \<or> (3 :: u32) \<le> 2"
    by simp_all
  from lz_copy_stays_below_bufend [OF this] show ?thesis by blast
qed

text \<open>
  C2 as stated fails: on a build with word copies, a call with \<open>offset = 2 \<le> dst\<close>,
  \<open>length = 1\<close>, \<open>dst + length \<le> bufend\<close> and \<open>min_length = 2\<close> falls back to the
  bytewise copy, whose counter wraps, and stores at \<open>bufend\<close>.
\<close>

theorem lz_copy_overrun_counterexample:
  "unat (2 :: u32) \<le> (2 :: nat) \<and> 2 + unat (1 :: u32) \<le> (4 :: nat) \<and> (1 :: u32) \<le> 1 \<and>
   lz_copy \<lparr>fast_unaligned_access = True, word_size = W8, big_endian = False\<rparr>
     (bytes_at [7, 8, 0, 0]) 2 1 2 4 2 = Inl WritePastBufend"
  by (simp add: lz_copy_def lz_copy_bytewise_def lz_copy_bytes.simps copy_byte_def out_load_def
      out_store_def bytes_at_def)

text \<open>
  C9. The bytewise fallback needs \<open>length \<ge> min_length\<close> when \<open>min_length\<close> is 2 or 3:
  then it performs exactly the \<open>length\<close> single-byte copies of the reference copy and
  returns \<open>dst + length\<close>. With \<open>min_length = 3\<close> and \<open>length = 1\<close> the two unrolled
  copies leave the counter at \<open>0xFFFFFFFF\<close> when the loop is entered at \<open>dst + 2\<close>, and
  the loop runs past \<open>dst + length\<close> until it stores at \<open>bufend\<close>, although
  \<open>length \<ge> 1\<close>, \<open>offset \<le> dst\<close> and \<open>dst + length \<le> bufend\<close> hold.
\<close>

theorem lz_copy_bytewise_min_length:
  "(\<forall>mem dst length' offset bufend min_length.
      (min_length = 2 \<or> min_length = 3) \<and> min_length \<le> length' \<and>
      unat offset \<le> dst \<and> dst + unat length' \<le> bufend \<longrightarrow>
      lz_copy_bytewise mem dst length' offset bufend min_length =
        Inr (ref_copy mem dst (unat offset) (unat length'), dst + unat length')) \<and>
   lz_copy_bytewise (bytes_at [5, 0, 0, 0, 0]) 1 1 1 5 3 =
     lz_copy_bytes ((bytes_at [5, 0, 0, 0, 0])(1 := 5, 2 := 5)) 5 2 3 0xFFFFFFFF \<and>
   lz_copy_bytewise (bytes_at [5, 0, 0, 0, 0]) 1 1 1 5 3 = Inl WritePastBufend"
proof (intro conjI allI impI)
  fix mem dst and length' offset :: u32 and bufend and min_length :: u32
  assume a: "(min_length = 2 \<or> min_length = 3) \<and> min_length \<le> length' \<and>
      unat offset \<le> dst \<and> dst + unat length' \<le> bufend"
  then have "(if 3 \<le> min_length then 2 else if 2 \<le> min_length then 1 else 0) < unat length'"
    by (auto simp: word_le_nat_alt)
  with a show "lz_copy_bytewise mem dst length' offset bufend min_length =
        Inr (ref_copy mem dst (unat offset) (unat length'), dst + unat length')"
    by (intro lz_copy_bytewise_ok) simp_all
next
  show "lz_copy_bytewise (bytes_at [5, 0, 0, 0, 0]) 1 1 1 5 3 =
     lz_copy_bytes ((bytes_at [5, 0, 0, 0, 0])(1 := 5, 2 := 5)) 5 2 3 0xFFFFFFFF"
  proof -
    have a: "lz_copy_bytewise (bytes_at [5, 0, 0, 0, 0]) 1 1 1 5 3 =
        lz_copy_bytes ((bytes_at [5, 0, 0, 0, 0])(Suc 0 := 5, Suc (Suc 0) := 5)) 5 2
          (Suc (Suc (Suc 0))) (- 1)"
      by (simp add: lz_copy_bytewise_def copy_byte_def out_load_def out_store_def bytes_at_def)
    have b: "Suc 0 = 1" "Suc 1 = 2" "Suc 2 = 3" "(- 1 :: u32) = 0xFFFFFFFF" by simp_all
    show ?thesis unfolding a b by (rule refl)
  qed
next
  show "lz_copy_bytewise (bytes_at [5, 0, 0, 0, 0]) 1 1 1 5 3 = Inl WritePastBufend"
    by (simp add: lz_copy_bytewise_def lz_copy_bytes.simps copy_byte_def out_load_def
      out_store_def bytes_at_def)
qed

theorem lz_copy_bytewise_min_length_witness:
  "lz_copy_bytewise (bytes_at [1, 2, 3, 0, 0, 0, 0]) 3 4 2 7 3 =
     Inr (ref_copy (bytes_at [1, 2, 3, 0, 0, 0, 0]) 3 2 4, 7)"
proof -
  have "((3 :: u32) = 2 \<or> (3 :: u32) = 3) \<and> (3 :: u32) \<le> 4 \<and> unat (2 :: u32) \<le> 3 \<and>
      3 + unat (4 :: u32) \<le> 7"
    by simp
  from lz_copy_bytewise_min_length [THEN conjunct1, rule_format, OF this] show ?thesis by simp
qed

section \<open>The final byte of a buffer of odd size\<close>

lemma ensure_bits_last_byte:
  assumes "endp is = nextp is + 1"
  shows "bitstream_ensure_bits mem is n =
           Inr (if bitsleft is < n then is\<lparr>bitsleft := bitsleft is + 16\<rparr> else is)"
  using assms by (simp add: bitstream_ensure_bits_def)

lemma ensure_bits_odd_eq:
  assumes odd: "odd (endp is - nextp is)"
    and same: "\<And>p. p + 1 \<noteq> endp is \<Longrightarrow> mem p = mem' p"
  shows "bitstream_ensure_bits mem is n = bitstream_ensure_bits mem' is n"
proof -
  have eq: "get_unaligned_le16 mem is (nextp is) = get_unaligned_le16 mem' is (nextp is)"
    if "2 \<le> int (endp is) - int (nextp is)"
  proof -
    from that odd have "nextp is + 3 \<le> endp is"
      by (cases "endp is - nextp is = 2") auto
    then have "mem (nextp is) = mem' (nextp is)" "mem (nextp is + 1) = mem' (nextp is + 1)"
      by (auto intro!: same)
    then show ?thesis by (simp add: get_unaligned_le16_def load_u8_def)
  qed
  then show ?thesis by (simp add: bitstream_ensure_bits_def)
qed

lemma ensure_bits_odd_parity:
  assumes odd: "odd (endp is - nextp is)"
    and r: "bitstream_ensure_bits mem is n = Inr is'"
  shows "odd (endp is' - nextp is') \<and> endp is' = endp is"
proof (cases "bitsleft is < n \<and> 2 \<le> int (endp is) - int (nextp is)")
  case True
  then have "endp is - (nextp is + 2) = endp is - nextp is - 2" "2 \<le> endp is - nextp is"
    by arith+
  with odd have "odd (endp is - (nextp is + 2))" by simp
  with r True show ?thesis
    by (auto simp: bitstream_ensure_bits_def split: sum.splits)
next
  case False
  with r odd show ?thesis by (auto simp: bitstream_ensure_bits_def split: if_splits)
qed

lemma run_op_odd:
  assumes odd: "odd (endp is - nextp is)"
    and same: "\<And>p. p + 1 \<noteq> endp is \<Longrightarrow> mem p = mem' p"
    and op: "bit_granular op"
  shows "run_op ws mem is op = run_op ws mem' is op"
    and "run_op ws mem is op = Inr (v, is') \<Longrightarrow>
           odd (endp is' - nextp is') \<and> endp is' = endp is"
proof -
  have e: "bitstream_ensure_bits mem is k = bitstream_ensure_bits mem' is k" for k
    using odd same by (rule ensure_bits_odd_eq)
  note p = ensure_bits_odd_parity [OF odd]
  show "run_op ws mem is op = run_op ws mem' is op"
    using op e by (cases op) (simp_all add: bitstream_read_bits_def)
  assume r: "run_op ws mem is op = Inr (v, is')"
  show "odd (endp is' - nextp is') \<and> endp is' = endp is"
  proof (cases op)
    case (Ensure n)
    with r p [of mem n is'] show ?thesis by (auto split: sum.splits)
  next
    case (Peek n)
    with r odd show ?thesis by (auto split: sum.splits)
  next
    case (Remove n)
    with r odd remove_bits_fault [of "is" n] show ?thesis by (auto split: sum.splits)
  next
    case (Pop n)
    with r odd pop_bits_fault [of "is" n] show ?thesis by (auto split: sum.splits)
  next
    case (ReadBits n)
    with r obtain v0 where rb: "bitstream_read_bits mem is n = Inr (v0, is')"
      by (auto split: sum.splits)
    then obtain is1 where 1: "bitstream_ensure_bits mem is n = Inr is1"
      and 2: "bitstream_pop_bits is1 n = Inr (v0, is')"
      by (auto simp: bitstream_read_bits_def split: sum.splits)
    from p [OF 1] pop_bits_fault [of is1 n] 2 show ?thesis by auto
  next
    case Align
    with r odd show ?thesis by (auto simp: bitstream_align_def)
  qed (use op in simp_all)
qed

lemma run_ops_odd:
  assumes "odd (endp is - nextp is)"
    and "\<And>p. p + 1 \<noteq> endp is \<Longrightarrow> mem p = mem' p"
    and "list_all bit_granular ops"
  shows "run_ops ws mem is ops = run_ops ws mem' is ops"
  using assms
proof (induction ops arbitrary: "is")
  case Nil
  then show ?case by simp
next
  case (Cons op ops)
  from Cons.prems(3) have op: "bit_granular op" and ops: "list_all bit_granular ops" by simp_all
  note o = run_op_odd [of "is" mem mem' op, OF Cons.prems(1,2) op]
  show ?case
  proof (cases "run_op ws mem is op")
    case (Inl f)
    with o(1) [of ws, symmetric] show ?thesis by simp
  next
    case (Inr r)
    obtain v is1 where r: "r = (v, is1)" by (cases r)
    from o(2) [of ws v is1] Inr r have i: "odd (endp is1 - nextp is1)" "endp is1 = endp is"
      by auto
    have "run_ops ws mem is1 ops = run_ops ws mem' is1 ops"
      by (rule Cons.IH [OF i(1) _ ops]) (use i(2) Cons.prems(2) in simp)
    with Inr r o(1) [of ws, symmetric] show ?thesis by simp
  qed
qed

text \<open>
  C10 (amended). When exactly one input byte remains before \<open>end\<close>,
  \<^verbatim>\<open>bitstream_ensure_bits\<close> does not read it (its result does not depend on the
  memory) and keeps the cursor, adding 16 to \<open>bitsleft\<close> only. Consequently, while an
  odd number of bytes remains at the cursor, as after \<^verbatim>\<open>init_input_bitstream\<close> on a
  buffer of odd size, the byte just before \<open>end\<close> does not influence any result of a
  sequence of bit-granular operations (ensure, peek, remove, pop, read, align): two
  memories that differ in that byte only give the same results and states.
\<close>

theorem final_byte_of_odd_buffer:
  "(endp is = nextp is + 1 \<longrightarrow>
      bitstream_ensure_bits mem is n =
        Inr (if bitsleft is < n then is\<lparr>bitsleft := bitsleft is + 16\<rparr> else is)) \<and>
   (odd (endp is - nextp is) \<and> (\<forall>p. p + 1 \<noteq> endp is \<longrightarrow> mem p = mem' p) \<and>
    list_all bit_granular ops \<longrightarrow>
      run_ops ws mem is ops = run_ops ws mem' is ops) \<and>
   (odd (unat sz) \<longrightarrow>
      odd (endp (init_input_bitstream buffer sz) - nextp (init_input_bitstream buffer sz)))"
proof (intro conjI impI)
  assume "endp is = nextp is + 1"
  then show "bitstream_ensure_bits mem is n =
        Inr (if bitsleft is < n then is\<lparr>bitsleft := bitsleft is + 16\<rparr> else is)"
    by (rule ensure_bits_last_byte)
next
  assume a: "odd (endp is - nextp is) \<and> (\<forall>p. p + 1 \<noteq> endp is \<longrightarrow> mem p = mem' p) \<and>
    list_all bit_granular ops"
  show "run_ops ws mem is ops = run_ops ws mem' is ops"
    by (rule run_ops_odd) (use a in simp_all)
next
  assume "odd (unat sz)"
  then show "odd (endp (init_input_bitstream buffer sz) - nextp (init_input_bitstream buffer sz))"
    by (simp add: init_input_bitstream_def)
qed

theorem final_byte_of_odd_buffer_witness:
  "bitstream_ensure_bits (bytes_at [1, 2, 3]) \<lparr>bitbuf = 0, bitsleft = 0, nextp = 2, endp = 3\<rparr> 8 =
     Inr \<lparr>bitbuf = 0, bitsleft = 16, nextp = 2, endp = 3\<rparr> \<and>
   run_ops W8 (bytes_at [1, 2, 3]) (init_input_bitstream 0 3) [ReadBits 9, Pop 3, ReadBits 16] =
   run_ops W8 (bytes_at [1, 2, 4]) (init_input_bitstream 0 3) [ReadBits 9, Pop 3, ReadBits 16] \<and>
   odd (unat (3 :: u32)) \<and>
   odd (endp (init_input_bitstream 0 3) - nextp (init_input_bitstream 0 3))"
proof -
  have 3: "odd (unat (3 :: u32))" by simp
  have 1: "endp \<lparr>bitbuf = 0, bitsleft = 0, nextp = 2, endp = 3\<rparr> =
      nextp \<lparr>bitbuf = 0 :: u32, bitsleft = 0 :: u32, nextp = 2, endp = 3\<rparr> + 1"
    by simp
  have 2: "odd (endp (init_input_bitstream 0 3) - nextp (init_input_bitstream 0 3)) \<and>
      (\<forall>p. p + 1 \<noteq> endp (init_input_bitstream 0 3) \<longrightarrow>
         bytes_at [1, 2, 3] p = bytes_at [1, 2, 4] p) \<and>
      list_all bit_granular [ReadBits 9, Pop 3, ReadBits 16]"
    by (auto simp: init_input_bitstream_def bytes_at_def nth_Cons')
  from final_byte_of_odd_buffer [where ?is = "\<lparr>bitbuf = 0, bitsleft = 0, nextp = 2, endp = 3\<rparr>"
      and mem = "bytes_at [1, 2, 3]" and n = 8, THEN conjunct1, rule_format, OF 1]
    final_byte_of_odd_buffer [where ?is = "init_input_bitstream 0 3"
      and mem = "bytes_at [1, 2, 3]" and mem' = "bytes_at [1, 2, 4]" and ws = W8
      and ops = "[ReadBits 9, Pop 3, ReadBits 16]", THEN conjunct2, THEN conjunct1, rule_format, OF 2]
    final_byte_of_odd_buffer [where buffer = 0 and sz = 3,
      THEN conjunct2, THEN conjunct2, rule_format, OF 3] 3
  show ?thesis by simp
qed

text \<open>
  C10 as stated fails once a byte-granular read has moved the cursor to an odd offset:
  on a 3-byte buffer, after \<^verbatim>\<open>bitstream_read_byte\<close>, \<^verbatim>\<open>bitstream_read_bits(8)\<close>
  returns the final byte.
\<close>

theorem final_byte_after_byte_read_counterexample:
  "run_ops W8 (bytes_at [1, 2, 3]) (init_input_bitstream 0 3) [ReadByte, ReadBits 8] =
     Inr ([Byte 1, Bits 3], \<lparr>bitbuf = 0x02000000, bitsleft = 8, nextp = 3, endp = 3\<rparr>) \<and>
   run_ops W8 (bytes_at [1, 2, 4]) (init_input_bitstream 0 3) [ReadByte, ReadBits 8] =
     Inr ([Byte 1, Bits 4], \<lparr>bitbuf = 0x02000000, bitsleft = 8, nextp = 3, endp = 3\<rparr>)"
  by (simp add: init_input_bitstream_def bitstream_read_byte_def bitstream_read_bits_def
      bitstream_ensure_bits_def bitstream_pop_bits_def bitstream_peek_bits_def
      bitstream_remove_bits_def get_unaligned_le16_def load_u8_def shl32_def shr32_def
      bytes_at_def)

section \<open>Round trip through the reference bit-writer\<close>

lemma bits_msb_unit_of_bits:
  assumes "length bs = 16"
  shows "bits_msb 16 (unit_of_bits bs) = bs"
proof (rule nth_equalityI)
  show "length (bits_msb 16 (unit_of_bits bs)) = length bs" using assms by simp
next
  fix i
  assume "i < length (bits_msb 16 (unit_of_bits bs))"
  then have i: "i < 16" by simp
  then have "rev bs ! (15 - i) = bs ! i" using assms by (simp add: rev_nth)
  with i assms show "bits_msb 16 (unit_of_bits bs) ! i = bs ! i"
    by (auto simp: bits_msb_def unit_of_bits_def bit_horner_sum_bit_word_iff)
qed

lemma le16_bytes_unit:
  "(ucast (ucast u :: u8) OR push_bit 8 (ucast (ucast (drop_bit 8 u) :: u8)) :: u16) = (u :: u16)"
proof (rule bit_eqI)
  fix n
  assume "possible_bit TYPE(u16) n"
  then have n: "n < 16" by (simp add: possible_bit_word)
  show "bit (ucast (ucast u :: u8) OR push_bit 8 (ucast (ucast (drop_bit 8 u) :: u8)) :: u16) n = bit u n"
  proof (cases "n < 8")
    case True
    then show ?thesis by (simp add: bit_simps)
  next
    case False
    with n show ?thesis by (auto simp: bit_simps)
  qed
qed

lemma unit_bits_units_of_bits:
  "16 dvd length bs \<Longrightarrow> unit_bits (concat (map le16_bytes (units_of_bits bs))) = bs"
proof (induction bs rule: units_of_bits.induct)
  case (1 bs)
  show ?case
  proof (cases "bs = []")
    case True
    then show ?thesis by (simp add: units_of_bits.simps)
  next
    case False
    from "1.prems" obtain k where k: "length bs = 16 * k" by (auto elim: dvdE)
    have "k \<noteq> 0"
    proof
      assume "k = 0"
      with k have "bs = []" by simp
      with False show False by simp
    qed
    with k have len: "16 \<le> length bs" by simp
    then have t: "length (take 16 bs) = 16" by simp
    from "1.prems" len have "16 dvd length (drop 16 bs)"
      by (metis dvd_diff_nat dvd_refl length_drop)
    with "1.IH" False have ih: "unit_bits (concat (map le16_bytes (units_of_bits (drop 16 bs)))) = drop 16 bs"
      by simp
    have "unit_bits (concat (map le16_bytes (units_of_bits bs))) =
        bits_msb 16 (unit_of_bits (take 16 bs)) @ drop 16 bs"
      using False ih
      by (subst units_of_bits.simps) (simp add: le16_bytes_def le16_bytes_unit)
    also have "\<dots> = bs" by (simp add: bits_msb_unit_of_bits [OF t])
    finally show ?thesis .
  qed
qed

lemma length_pad16: "16 dvd length (pad16 bs)"
proof (cases "length bs mod 16 = 0")
  case True
  then show ?thesis by (simp add: pad16_def dvd_eq_mod_eq_0)
next
  case False
  let ?r = "length bs mod 16"
  have r: "?r < 16" by simp
  have "length bs = 16 * (length bs div 16) + ?r" by simp
  with r have "length bs + (16 - ?r) = 16 * (length bs div 16 + 1)" by arith
  moreover from False r have "(16 - ?r) mod 16 = 16 - ?r" by simp
  ultimately have "length (pad16 bs) = 16 * (length bs div 16 + 1)"
    by (simp only: pad16_def length_append length_replicate)
  then show ?thesis by simp
qed

lemma map_bytes_at: "map (bytes_at bs) [0..<length bs] = bs"
  by (rule nth_equalityI) (simp_all add: bytes_at_def)

lemma ensure_pending:
  assumes ok: "stream_ok is" and n: "n \<le> 16" and avail: "unat n \<le> length (pending mem is)"
  shows "\<exists>is1. bitstream_ensure_bits mem is n = Inr is1 \<and> stream_ok is1 \<and>
           pending mem is1 = pending mem is \<and> n \<le> bitsleft is1"
proof -
  from ok have inv: "nextp is \<le> endp is" by (simp add: stream_ok_iff)
  from ensure_bits_cases [OF inv n, of mem] obtain is1 where
    e: "bitstream_ensure_bits mem is n = Inr is1" "n \<le> bitsleft is1"
    and c: "if n \<le> bitsleft is then is1 = is
            else if nextp is + 2 \<le> endp is then
              is1 = is\<lparr>bitbuf := bitbuf is OR
                          push_bit (16 - unat (bitsleft is))
                            (ucast (ucast (mem (nextp is)) OR
                                    push_bit 8 (ucast (mem (nextp is + 1))) :: u16)),
                       bitsleft := bitsleft is + 16,
                       nextp := nextp is + 2\<rparr>
            else is1 = is\<lparr>bitsleft := bitsleft is + 16\<rparr>"
    by blast
  show ?thesis
  proof (cases "n \<le> bitsleft is")
    case True
    with c e ok show ?thesis by simp
  next
    case False
    let ?K = "unat (bitsleft is)"
    let ?u = "ucast (mem (nextp is)) OR push_bit 8 (ucast (mem (nextp is + 1))) :: u16"
    let ?W = "bitbuf is OR push_bit (16 - ?K) (ucast ?u)"
    from False have kn: "?K < unat n" by (simp add: word_less_nat_alt not_le)
    from n have "unat n \<le> 16" by (simp add: word_le_nat_alt)
    with kn have K: "?K < 16" by simp
    from kn avail have "unit_bits (map mem [nextp is..<endp is]) \<noteq> []"
      by (auto simp: pending_def)
    then have "2 \<le> length (map mem [nextp is..<endp is])" by (rule unit_bits_nonempty)
    then have two: "nextp is + 2 \<le> endp is" by simp
    then have "[nextp is..<endp is] = nextp is # (nextp is + 1) # [nextp is + 2..<endp is]"
      by (simp add: upt_rec [of "nextp is"] upt_rec [of "Suc (nextp is)"])
    then have ub: "unit_bits (map mem [nextp is..<endp is]) =
        bits_msb 16 ?u @ unit_bits (map mem [nextp is + 2..<endp is])"
      by simp
    from c False two have is1: "is1 = is\<lparr>bitbuf := ?W, bitsleft := bitsleft is + 16,
        nextp := nextp is + 2\<rparr>"
      by simp
    note r = acc_bits_refill [OF ok K two, of ?u]
    have "pending mem is1 = pending mem is"
      unfolding pending_def is1 r(1) ub by simp
    with r(2) e show ?thesis unfolding is1 by blast
  qed
qed

lemma pop_pending:
  assumes ok: "stream_ok is" and nk: "n \<le> bitsleft is" and n16: "n \<le> 16"
  shows "\<exists>r is2. bitstream_pop_bits is n = Inr (r, is2) \<and> stream_ok is2 \<and>
           pending mem is2 = drop (unat n) (pending mem is) \<and>
           (\<forall>j. bit r j \<longleftrightarrow> j < unat n \<and> bit (bitbuf is) (32 - unat n + j))"
proof -
  let ?N = "unat n" and ?K = "unat (bitsleft is)" and ?b = "bitbuf is"
  let ?is2 = "is\<lparr>bitbuf := push_bit ?N ?b, bitsleft := bitsleft is - n\<rparr>"
  from n16 have N: "?N \<le> 16" by (simp add: word_le_nat_alt)
  from nk have NK: "?N \<le> ?K" by (simp add: word_le_nat_alt)
  from ok have K: "?K \<le> 32" and zero: "\<And>j. j + ?K < 32 \<Longrightarrow> \<not> bit ?b j"
    and ne: "nextp is \<le> endp is"
    by (simp_all add: stream_ok_iff)
  from N have n32: "n \<le> 32" "n < 32" by (simp_all add: word_le_nat_alt word_less_nat_alt)
  from peek_bits_ok [OF n32(1), of "is"] obtain r where
    p: "bitstream_peek_bits is n = Inr r" and r0: "unat r < 2 ^ ?N"
    and r: "n \<noteq> 0 \<Longrightarrow> r = drop_bit (32 - ?N) ?b"
    by blast
  have rm: "bitstream_remove_bits is n = Inr ?is2" by (rule remove_bits_ok [OF n32(2)])
  have pop: "bitstream_pop_bits is n = Inr (r, ?is2)"
    by (simp add: bitstream_pop_bits_def p rm)
  have uk: "unat (bitsleft is - n) = ?K - ?N" using nk by (simp add: unat_sub)
  have rbits: "bit r j \<longleftrightarrow> j < ?N \<and> bit ?b (32 - ?N + j)" for j
  proof (cases "n = 0")
    case True
    with r0 have "r = 0" by (simp add: unat_eq_0)
    with True show ?thesis by simp
  next
    case False
    have "\<not> bit ?b (32 - ?N + j)" if "?N \<le> j"
    proof -
      from that N have "32 \<le> 32 - ?N + j" by arith
      then show ?thesis by (auto dest!: bit_imp_le_length)
    qed
    then have "bit ?b (32 - ?N + j) \<Longrightarrow> j < ?N" by (cases "j < ?N") simp_all
    with r [OF False] show ?thesis by (auto simp: bit_simps)
  qed
  have acc: "acc_bits ?is2 = drop ?N (acc_bits is)"
  proof (rule nth_equalityI)
    show "length (acc_bits ?is2) = length (drop ?N (acc_bits is))" by (simp add: uk)
  next
    fix i
    assume "i < length (acc_bits ?is2)"
    then have i: "i < ?K - ?N" by (simp add: uk)
    with K have a: "?N \<le> 31 - i" "31 - i - ?N = 31 - (?N + i)" "31 - i < 32" "?N + i < ?K"
      by arith+
    have "acc_bits ?is2 ! i = bit (push_bit ?N ?b) (31 - i)"
      using i by (simp add: acc_bits_def uk)
    also have "\<dots> = bit ?b (31 - (?N + i))" using a by (simp add: bit_simps)
    also have "\<dots> = drop ?N (acc_bits is) ! i" using a NK by (simp add: acc_bits_def)
    finally show "acc_bits ?is2 ! i = drop ?N (acc_bits is) ! i" .
  qed
  have pend: "pending mem ?is2 = drop ?N (pending mem is)"
    using NK by (simp add: pending_def acc)
  have "stream_ok ?is2"
    unfolding stream_ok_iff
  proof (intro conjI allI impI)
    show "nextp ?is2 \<le> endp ?is2" using ne by simp
    show "unat (bitsleft ?is2) \<le> 32" using K by (simp add: uk)
    fix j
    assume "j + unat (bitsleft ?is2) < 32"
    then have j: "j + (?K - ?N) < 32" by (simp add: uk)
    show "\<not> bit (bitbuf ?is2) j"
    proof (cases "?N \<le> j")
      case True
      with j NK have "j - ?N + ?K < 32" by arith
      from zero [OF this] True show ?thesis by (simp add: bit_simps)
    next
      case False
      then show ?thesis by (simp add: bit_simps)
    qed
  qed
  with pop pend rbits show ?thesis by blast
qed

lemma upper_bits_clear:
  fixes v :: u32
  assumes "v < 2 ^ n" "n \<le> j"
  shows "\<not> bit v j"
proof -
  from assms(1) have "v AND mask n = v" by (rule less_mask_eq)
  then have "bit v j = bit (v AND mask n) j" by simp
  also have "\<dots> = False" using assms(2) by (simp add: bit_simps)
  finally show ?thesis by simp
qed

lemma read_bits_pending:
  assumes ok: "stream_ok is" and n: "n \<le> 16" and v: "v < 2 ^ n"
    and pend: "pending mem is = bits_msb n v @ rest"
  shows "\<exists>is'. bitstream_read_bits mem is (of_nat n) = Inr (v, is') \<and> stream_ok is' \<and>
           pending mem is' = rest"
proof -
  let ?n = "of_nat n :: u32"
  have un: "unat ?n = n" using n by (simp add: unat_of_nat)
  have n16: "?n \<le> 16" using n un by (simp add: word_le_nat_alt)
  have avail: "unat ?n \<le> length (pending mem is)" by (simp add: un pend)
  from ensure_pending [OF ok n16 avail] obtain is1 where
    e: "bitstream_ensure_bits mem is ?n = Inr is1" and ok1: "stream_ok is1"
    and p1: "pending mem is1 = pending mem is" and k1: "?n \<le> bitsleft is1"
    by blast
  from pop_pending [OF ok1 k1 n16, of mem] obtain r is2 where
    pop: "bitstream_pop_bits is1 ?n = Inr (r, is2)" and ok2: "stream_ok is2"
    and p2: "pending mem is2 = drop (unat ?n) (pending mem is1)"
    and rb: "\<And>j. bit r j \<longleftrightarrow> j < unat ?n \<and> bit (bitbuf is1) (32 - unat ?n + j)"
    by blast
  from k1 have nk: "n \<le> unat (bitsleft is1)" using un by (simp add: word_le_nat_alt)
  have "r = v"
  proof (rule bit_eqI)
    fix j
    assume "possible_bit TYPE(u32) j"
    show "bit r j = bit v j"
    proof (cases "j < n")
      case False
      then have "n \<le> j" by simp
      with v have "\<not> bit v j" by (rule upper_bits_clear)
      with False show ?thesis by (simp add: rb un)
    next
      case True
      let ?i = "n - 1 - j"
      from True have i: "?i < n" "n - 1 - ?i = j" "31 - ?i = 32 - n + j" using n by arith+
      from True nk have ik: "?i < unat (bitsleft is1)" by arith
      have "pending mem is1 ! ?i = acc_bits is1 ! ?i"
        using ik by (simp add: pending_def nth_append)
      also have "\<dots> = bit (bitbuf is1) (31 - ?i)" using ik by (simp add: acc_bits_def)
      finally have "bit (bitbuf is1) (32 - n + j) = pending mem is1 ! ?i" using i by simp
      also have "\<dots> = bits_msb n v ! ?i" using i by (simp add: p1 pend nth_append)
      also have "\<dots> = bit v j" using i nth_bits_msb [of ?i n v] by simp
      finally show ?thesis using True by (simp add: rb un)
    qed
  qed
  moreover have "pending mem is2 = rest" by (simp add: p2 p1 pend un)
  ultimately show ?thesis using e pop ok2 by (auto simp: bitstream_read_bits_def)
qed

lemma run_reads:
  assumes "stream_ok is"
    and "list_all (\<lambda>(n, v). n \<le> 16 \<and> v < 2 ^ n) chunks"
    and "pending mem is = concat (map (\<lambda>(n, v). bits_msb n v) chunks) @ rest"
  shows "\<exists>is'. run_ops ws mem is (map (\<lambda>(n, v). ReadBits (of_nat n)) chunks) =
                 Inr (map (\<lambda>(n, v). Bits v) chunks, is') \<and> pending mem is' = rest"
  using assms
proof (induction chunks arbitrary: "is")
  case Nil
  then show ?case by simp
next
  case (Cons c chunks)
  obtain n v where c: "c = (n, v)" by (cases c)
  from Cons.prems(2) c have nv: "n \<le> 16" "v < 2 ^ n"
    and rest: "list_all (\<lambda>(n, v). n \<le> 16 \<and> v < 2 ^ n) chunks"
    by simp_all
  from Cons.prems(3) c have "pending mem is =
      bits_msb n v @ (concat (map (\<lambda>(n, v). bits_msb n v) chunks) @ rest)"
    by simp
  from read_bits_pending [OF Cons.prems(1) nv this] obtain is1 where
    r: "bitstream_read_bits mem is (of_nat n) = Inr (v, is1)" and ok1: "stream_ok is1"
    and p1: "pending mem is1 = concat (map (\<lambda>(n, v). bits_msb n v) chunks) @ rest"
    by blast
  from Cons.IH [OF ok1 rest p1] obtain is' where
    "run_ops ws mem is1 (map (\<lambda>(n, v). ReadBits (of_nat n)) chunks) =
       Inr (map (\<lambda>(n, v). Bits v) chunks, is')" "pending mem is' = rest"
    by blast
  with r c show ?case by simp
qed

text \<open>
  C6. For every list of chunks, each a value of at most 16 bits, the bytes produced by
  the reference bit-writer (fewer than \<open>2 ^ 32\<close> of them, the range of the \<^verbatim>\<open>u32\<close> size
  of \<^verbatim>\<open>init_input_bitstream\<close>) are read back by \<^verbatim>\<open>init_input_bitstream\<close> followed by
  one \<^verbatim>\<open>bitstream_read_bits\<close> call per chunk, with the same widths, as exactly the
  original values in order, without a fault.
\<close>

theorem bit_writer_roundtrip:
  assumes "list_all (\<lambda>(n, v). n \<le> 16 \<and> v < 2 ^ n) chunks"
    and "length (bit_writer chunks) < 2 ^ 32"
  shows "\<exists>is'. run_ops ws (bytes_at (bit_writer chunks))
                  (init_input_bitstream 0 (of_nat (length (bit_writer chunks))))
                  (map (\<lambda>(n, v). ReadBits (of_nat n)) chunks) =
                Inr (map (\<lambda>(n, v). Bits v) chunks, is')"
proof -
  let ?bs = "bit_writer chunks"
  let ?bits = "concat (map (\<lambda>(n, v). bits_msb n v) chunks)"
  let ?is = "init_input_bitstream 0 (of_nat (length ?bs))"
  have len: "unat (of_nat (length ?bs) :: u32) = length ?bs"
    using assms(2) by (simp add: unat_of_nat)
  have ok: "stream_ok ?is" by (simp add: stream_ok_def init_input_bitstream_def)
  have "unit_bits ?bs = pad16 ?bits"
    unfolding bit_writer_def by (rule unit_bits_units_of_bits) (rule length_pad16)
  then have "pending (bytes_at ?bs) ?is =
      ?bits @ replicate ((16 - length ?bits mod 16) mod 16) False"
    by (simp add: pending_def acc_bits_def init_input_bitstream_def len map_bytes_at pad16_def)
  from run_reads [OF ok assms(1) this] show ?thesis by blast
qed

theorem bit_writer_roundtrip_witness:
  "bit_writer [(3, 5), (16, 0xABCD), (0, 0), (1, 1)] = [0x79, 0xB5, 0x00, 0xB0] \<and>
   (\<exists>is'. run_ops W8 (bytes_at [0x79, 0xB5, 0x00, 0xB0]) (init_input_bitstream 0 4)
            [ReadBits 3, ReadBits 16, ReadBits 0, ReadBits 1] =
          Inr ([Bits 5, Bits 0xABCD, Bits 0, Bits 1], is'))"
proof -
  have w: "bit_writer [(3, 5), (16, 0xABCD), (0, 0), (1, 1)] = [0x79, 0xB5, 0x00, 0xB0]"
    by code_simp
  have a: "list_all (\<lambda>(n, v). n \<le> 16 \<and> v < 2 ^ n) [(3, 5 :: u32), (16, 0xABCD), (0, 0), (1, 1)]"
    by simp
  have l: "length (bit_writer [(3, 5), (16, 0xABCD), (0, 0), (1, 1)]) < 2 ^ 32"
    unfolding w by simp
  from bit_writer_roundtrip [OF a l, of W8] show ?thesis
    unfolding w by simp
qed

end
